theory Spec2Isabelle
  imports Main
begin

section \<open>Permission entities\<close>

text \<open>
  The collection code of \<^verbatim>\<open>permissionsCollection.js\<close> works on permission entities.
  The entity class itself (\<^verbatim>\<open>permissionEntity.js\<close>) is not part of the sources at hand;
  its data and helpers are modelled from the specification (section 3, Data model).
\<close>

datatype aco_kind = Resource | Folder

datatype aro_kind = User | Group

datatype permission_level = Read | Update | Owner

record permission =
  perm_id :: "string option"
  aco :: aco_kind
  aco_foreign_key :: string
  aro :: aro_kind
  aro_foreign_key :: string
  perm_type :: permission_level

text \<open>
  Modelled from the spec: the permission level is an ordered enum, Read < Update < Owner.
  Only the order of the three numbers matters.
\<close>

fun level_rank :: "permission_level \<Rightarrow> nat" where
  "level_rank Read = 1"
| "level_rank Update = 7"
| "level_rank Owner = 15"

text \<open>
  JavaScript truthiness of an optional string, as tested by \<^verbatim>\<open>if (!permission.id)\<close>:
  an absent identifier and the empty string are both falsy.
\<close>

definition truthy :: "string option \<Rightarrow> bool" where
  "truthy v = (case v of None \<Rightarrow> False | Some s \<Rightarrow> s \<noteq> [])"

text \<open>
  Modelled from the spec: \<^verbatim>\<open>PermissionEntity.isAroMatching\<close>, \<^verbatim>\<open>isAcoMatching\<close> and
  \<^verbatim>\<open>isAcoAndAroMatching\<close> are missing from the sources; the spec compares the pair
  (ARO type, ARO id), respectively (ACO type, ACO id).
\<close>

definition isAroMatching :: "permission \<Rightarrow> permission \<Rightarrow> bool" where
  "isAroMatching a b = (aro a = aro b \<and> aro_foreign_key a = aro_foreign_key b)"

definition isAcoMatching :: "permission \<Rightarrow> permission \<Rightarrow> bool" where
  "isAcoMatching a b = (aco a = aco b \<and> aco_foreign_key a = aco_foreign_key b)"

definition isAcoAndAroMatching :: "permission \<Rightarrow> permission \<Rightarrow> bool" where
  "isAcoAndAroMatching a b = (isAroMatching a b \<and> isAcoMatching a b)"

text \<open>
  Modelled from the spec: \<^verbatim>\<open>PermissionEntity.getHighestPermission\<close> is missing from the
  sources. Spec 4.1: the one of the two with the higher permission level, a tie being
  resolved toward the first argument (the existing member).
\<close>

definition getHighestPermission :: "permission \<Rightarrow> permission \<Rightarrow> permission" where
  "getHighestPermission a b =
     (if level_rank (perm_type a) < level_rank (perm_type b) then b else a)"

text \<open>
  Modelled from the spec: \<^verbatim>\<open>PermissionEntity.isOwner\<close> is missing from the sources; a
  member is an owner when its level is Owner.
\<close>

definition isOwner :: "permission \<Rightarrow> bool" where
  "isOwner p = (perm_type p = Owner)"

text \<open>
  Modelled from the spec: \<^verbatim>\<open>PermissionEntity.toDto\<close> is missing from the sources. It gives
  the plain record of an entity (spec 4.1: a deep copy); on the attributes of the data model
  it is the identity. The optional associated user or group objects are not modelled.
\<close>

definition toDto :: "permission \<Rightarrow> permission" where
  "toDto p = p"

section \<open>Errors\<close>

datatype rule = RULE_UNIQUE_ID | RULE_UNIQUE_ARO | RULE_SAME_ACO | RULE_ONE_OWNER

text \<open>
  \<^verbatim>\<open>EntityCollectionError(position, rule, message)\<close>; the message is a text derived from
  the rejected permission and is not modelled.
\<close>

datatype error =
    TypeError
  | EntityValidationError
  | EntityCollectionError nat rule

text \<open>
  Modelled from the spec: the constructor of \<^verbatim>\<open>PermissionEntity\<close> and the schema it
  validates against (\<^verbatim>\<open>PermissionEntity.getSchema()\<close>, \<^verbatim>\<open>EntitySchema.validate\<close>) are
  missing from the sources. The schema is a parameter \<open>schema\<close> of every operation that
  validates: the predicate that holds of the records the schema accepts. The constructor
  gives the entity of a record that the schema accepts and throws a validation error on
  any other record.
\<close>

definition new_PermissionEntity :: "(permission \<Rightarrow> bool) \<Rightarrow> permission \<Rightarrow> error + permission" where
  "new_PermissionEntity schema dto = (if schema dto then Inr dto else Inl EntityValidationError)"

section \<open>PermissionsCollection\<close>

text \<open>
  The state of a collection is its list of members (\<^verbatim>\<open>this._items\<close>), in insertion
  order. An operation takes the state and returns its outcome together with the state it
  leaves behind: \<open>Inl e\<close> when it throws \<open>e\<close>, \<open>Inr v\<close> when it returns \<open>v\<close>.
\<close>

subsection \<open>Assertions\<close>

definition assertSameAco :: "permission list \<Rightarrow> permission \<Rightarrow> error + unit" where
  "assertSameAco items p =
     (if length items = 0 then Inr ()
      else if \<not> isAcoMatching p (items ! 0) then Inl (EntityCollectionError 0 RULE_SAME_ACO)
      else Inr ())"

text \<open>The loop of \<^verbatim>\<open>assertUniqueId\<close>, from index \<open>i\<close> on; \<open>es\<close> are the members from \<open>i\<close>.\<close>

fun uniqueId_loop :: "nat \<Rightarrow> permission list \<Rightarrow> permission \<Rightarrow> error + unit" where
  "uniqueId_loop i [] p = Inr ()"
| "uniqueId_loop i (existingPermission # es) p =
     (if truthy (perm_id existingPermission) \<and> perm_id existingPermission = perm_id p
      then Inl (EntityCollectionError i RULE_UNIQUE_ID)
      else uniqueId_loop (Suc i) es p)"

definition assertUniqueId :: "permission list \<Rightarrow> permission \<Rightarrow> error + unit" where
  "assertUniqueId items p =
     (if \<not> truthy (perm_id p) then Inr () else uniqueId_loop 0 items p)"

fun uniqueAro_loop :: "nat \<Rightarrow> permission list \<Rightarrow> permission \<Rightarrow> error + unit" where
  "uniqueAro_loop i [] p = Inr ()"
| "uniqueAro_loop i (existingPermission # es) p =
     (if isAroMatching p existingPermission
      then Inl (EntityCollectionError i RULE_UNIQUE_ARO)
      else uniqueAro_loop (Suc i) es p)"

definition assertUniqueAro :: "permission list \<Rightarrow> permission \<Rightarrow> error + unit" where
  "assertUniqueAro items p = uniqueAro_loop 0 items p"

fun assertAtLeastOneOwner :: "permission list \<Rightarrow> error + unit" where
  "assertAtLeastOneOwner [] = Inl (EntityCollectionError 0 RULE_ONE_OWNER)"
| "assertAtLeastOneOwner (p # ps) = (if isOwner p then Inr () else assertAtLeastOneOwner ps)"

subsection \<open>push\<close>

text \<open>
  The argument of \<^verbatim>\<open>push\<close>: a value that is not an object (or is null), a plain record
  (DTO), or a permission entity.
\<close>

datatype push_arg = NotAnObject | Dto permission | Entity permission

text \<open>
  What \<^verbatim>\<open>push\<close> does with the plain record it has after its first two statements: build
  the entity (which validates the record), check the three rules, append.
\<close>

definition push_dto ::
  "(permission \<Rightarrow> bool) \<Rightarrow> permission \<Rightarrow> permission list \<Rightarrow> (error + unit) \<times> permission list" where
  "push_dto schema dto items =
     (case new_PermissionEntity schema dto of
        Inl e \<Rightarrow> (Inl e, items)
      | Inr newPermission \<Rightarrow>
        (case assertSameAco items newPermission of
           Inl e \<Rightarrow> (Inl e, items)
         | Inr _ \<Rightarrow>
           (case assertUniqueId items newPermission of
              Inl e \<Rightarrow> (Inl e, items)
            | Inr _ \<Rightarrow>
              (case assertUniqueAro items newPermission of
                 Inl e \<Rightarrow> (Inl e, items)
               | Inr _ \<Rightarrow> (Inr (), items @ [newPermission])))))"

definition push ::
  "(permission \<Rightarrow> bool) \<Rightarrow> push_arg \<Rightarrow> permission list \<Rightarrow> (error + unit) \<times> permission list" where
  "push schema arg items =
     (case arg of
        NotAnObject \<Rightarrow> (Inl TypeError, items)
      | Entity e \<Rightarrow> push_dto schema (toDto e) items
      | Dto d \<Rightarrow> push_dto schema d items)"

subsection \<open>addOrReplace\<close>

definition recover :: "rule list" where
  "recover = [RULE_UNIQUE_ID, RULE_UNIQUE_ARO]"

text \<open>
  \<^verbatim>\<open>addOrReplace\<close> takes a permission entity. An error without a rule (a type or
  validation error) is not in \<open>recover\<close> and is thrown again. Reading the members at a
  position beyond their end gives \<^verbatim>\<open>undefined\<close>, whose properties cannot be read.
\<close>

definition addOrReplace ::
  "(permission \<Rightarrow> bool) \<Rightarrow> permission \<Rightarrow> permission list \<Rightarrow> (error + unit) \<times> permission list" where
  "addOrReplace schema p items =
     (case push schema (Entity p) items of
        (Inr u, items') \<Rightarrow> (Inr (), items')
      | (Inl err, items') \<Rightarrow>
        (case err of
           EntityCollectionError position r \<Rightarrow>
             if r \<notin> set recover then (Inl err, items')
             else if position < length items' then
               (let existingPermission = items' ! position in
                if isAcoAndAroMatching existingPermission p
                then (Inr (), items'[position := getHighestPermission existingPermission p])
                else (Inl err, items'))
             else (Inl TypeError, items')
         | _ \<Rightarrow> (Inl err, items')))"


text \<open>The test of the loop of \<^verbatim>\<open>assertUniqueId\<close> on an existing member.\<close>

definition idClash :: "permission \<Rightarrow> permission \<Rightarrow> bool" where
  "idClash existing p = (truthy (perm_id existing) \<and> perm_id existing = perm_id p)"


subsection \<open>Constructor\<close>

text \<open>The loop \<^verbatim>\<open>this._props.forEach(permission => this.push(permission))\<close>.\<close>

fun push_all ::
  "(permission \<Rightarrow> bool) \<Rightarrow> permission list \<Rightarrow> permission list \<Rightarrow> error + permission list" where
  "push_all schema [] items = Inr items"
| "push_all schema (d # ds) items =
     (case push schema (Dto d) items of
        (Inl e, _) \<Rightarrow> Inl e
      | (Inr _, items') \<Rightarrow> push_all schema ds items')"

text \<open>
  Modelled from the spec: \<^verbatim>\<open>EntitySchema.validate\<close> and the constructor of
  \<^verbatim>\<open>EntityCollection\<close> are missing from the sources. Spec 4.1: construction validates
  each record against the permission schema, then inserts each by the rules of
  \<^verbatim>\<open>push\<close>, starting from no members.

  The flag \<open>ownerValidation\<close> is \<open>None\<close> when the caller omits it. A failed construction
  throws and leaves no collection; a successful one returns the members.
\<close>

definition PermissionsCollection ::
  "(permission \<Rightarrow> bool) \<Rightarrow> permission list \<Rightarrow> bool option \<Rightarrow> error + permission list" where
  "PermissionsCollection schema permissionsDto ownerValidation =
     (if \<not> list_all schema permissionsDto then Inl EntityValidationError
      else
        (case push_all schema permissionsDto [] of
           Inl e \<Rightarrow> Inl e
         | Inr items \<Rightarrow>
           if ownerValidation = None \<or> ownerValidation = Some True
           then (case assertAtLeastOneOwner items of Inl e \<Rightarrow> Inl e | Inr _ \<Rightarrow> Inr items)
           else Inr items))"

subsection \<open>unionByAcoAndType\<close>

text \<open>The loop \<^verbatim>\<open>for (let set2Permission of set2) set3.addOrReplace(set2Permission)\<close>.\<close>

fun addOrReplace_all ::
  "(permission \<Rightarrow> bool) \<Rightarrow> permission list \<Rightarrow> permission list \<Rightarrow> error + permission list" where
  "addOrReplace_all schema [] set3 = Inr set3"
| "addOrReplace_all schema (set2Permission # rest) set3 =
     (case addOrReplace schema set2Permission set3 of
        (Inl e, _) \<Rightarrow> Inl e
      | (Inr _, set3') \<Rightarrow> addOrReplace_all schema rest set3')"

definition unionByAcoAndType ::
  "(permission \<Rightarrow> bool) \<Rightarrow> permission list \<Rightarrow> permission list \<Rightarrow> bool option
     \<Rightarrow> error + permission list" where
  "unionByAcoAndType schema set1 set2 ownerValidation =
     (case PermissionsCollection schema (map toDto set1) (Some False) of
        Inl e \<Rightarrow> Inl e
      | Inr set3 \<Rightarrow>
        (case addOrReplace_all schema set2 set3 of
           Inl e \<Rightarrow> Inl e
         | Inr set3' \<Rightarrow>
           if ownerValidation = None \<or> ownerValidation = Some True
           then (case assertAtLeastOneOwner set3' of Inl e \<Rightarrow> Inl e | Inr _ \<Rightarrow> Inr set3')
           else Inr set3'))"

subsection \<open>Structural invariants\<close>

text \<open>
  All members are about one ACO; no two members are about the same ARO; no two members
  carry the same identifier, an identifier counting when the code sees one (it is set and
  not empty).
\<close>

definition sameAcoInv :: "permission list \<Rightarrow> bool" where
  "sameAcoInv items = (\<forall>p\<in>set items. \<forall>q\<in>set items. isAcoMatching p q)"

definition aroKey :: "permission \<Rightarrow> aro_kind \<times> string" where
  "aroKey p = (aro p, aro_foreign_key p)"

definition uniqueAroInv :: "permission list \<Rightarrow> bool" where
  "uniqueAroInv items = distinct (map aroKey items)"

definition uniqueIdInv :: "permission list \<Rightarrow> bool" where
  "uniqueIdInv items = distinct (filter truthy (map perm_id items))"

definition collectionInv :: "permission list \<Rightarrow> bool" where
  "collectionInv items = (sameAcoInv items \<and> uniqueAroInv items \<and> uniqueIdInv items)"

text \<open>
  The collections a caller can obtain and the states it can bring them into with the
  public operations. A failed \<^verbatim>\<open>push\<close> or \<^verbatim>\<open>addOrReplace\<close> leaves a state, too: the
  one at the throw.
\<close>

inductive reachable :: "(permission \<Rightarrow> bool) \<Rightarrow> permission list \<Rightarrow> bool"
  for schema :: "permission \<Rightarrow> bool" where
  by_constructor:
    "PermissionsCollection schema dtos ov = Inr items \<Longrightarrow> reachable schema items"
| by_push:
    "reachable schema items \<Longrightarrow> push schema arg items = (r, items') \<Longrightarrow> reachable schema items'"
| by_addOrReplace:
    "reachable schema items \<Longrightarrow> addOrReplace schema p items = (r, items')
       \<Longrightarrow> reachable schema items'"
| by_unionByAcoAndType:
    "reachable schema set1 \<Longrightarrow> reachable schema set2
       \<Longrightarrow> unionByAcoAndType schema set1 set2 ov = Inr set3 \<Longrightarrow> reachable schema set3"

section \<open>FolderModel\<close>

text \<open>
  The folder entity (\<^verbatim>\<open>folderEntity.js\<close>) is missing from the sources; of it the model
  layer reads the identifier, the identifier of the parent folder (absent for a folder at
  the root) and the permission of the current user on the folder.
\<close>

record folder =
  folder_id :: string
  folderParentId :: "string option"
  folder_permission :: permission

text \<open>
  Modelled from the spec: \<^verbatim>\<open>PermissionEntity.copyForAnotherAco\<close> is missing from the
  sources. Spec 4.2: a copy of the permission re-targeted at the new ACO.
\<close>

definition copyForAnotherAco :: "permission \<Rightarrow> aco_kind \<Rightarrow> string \<Rightarrow> permission" where
  "copyForAnotherAco p acoType acoId = p\<lparr>aco := acoType, aco_foreign_key := acoId\<rparr>"

text \<open>
  The loop of \<^verbatim>\<open>cloneParentPermissions\<close> over the permissions of the parent folder.
\<close>

fun clone_loop ::
  "(permission \<Rightarrow> bool) \<Rightarrow> aco_kind \<Rightarrow> string \<Rightarrow> permission list \<Rightarrow> permission list
     \<Rightarrow> error + permission list" where
  "clone_loop schema acoType acoId [] permissions = Inr permissions"
| "clone_loop schema acoType acoId (parentPermission # rest) permissions =
     (let clone = copyForAnotherAco parentPermission acoType acoId in
      case addOrReplace schema clone permissions of
        (Inl e, _) \<Rightarrow> Inl e
      | (Inr _, permissions') \<Rightarrow> clone_loop schema acoType acoId rest permissions')"

text \<open>
  The folder service is remote: \<open>parent\<close> is what fetching the parent folder and reading
  its permissions gives, an error or the permissions of the parent in their order.
\<close>

definition cloneParentPermissions ::
  "(permission \<Rightarrow> bool) \<Rightarrow> error + permission list \<Rightarrow> aco_kind \<Rightarrow> string
     \<Rightarrow> error + permission list" where
  "cloneParentPermissions schema parent acoType acoId =
     (case parent of
        Inl e \<Rightarrow> Inl e
      | Inr parentPermissions \<Rightarrow>
        (case PermissionsCollection schema [] (Some False) of
           Inl e \<Rightarrow> Inl e
         | Inr permissions \<Rightarrow> clone_loop schema acoType acoId parentPermissions permissions))"

text \<open>
  \<^verbatim>\<open>applyPermissionFromParent\<close> up to the call of the change builder: the result is
  \<open>None\<close> for a folder without parent, and otherwise the pair of the current and the
  target permissions from which the changes are built. The change builder and the update
  through the folder service are outside the sources.
\<close>

definition applyPermissionFromParent ::
  "(permission \<Rightarrow> bool) \<Rightarrow> error + permission list \<Rightarrow> folder \<Rightarrow> bool option
     \<Rightarrow> error + (permission list \<times> permission list) option" where
  "applyPermissionFromParent schema parent folderEntity keepOwnership =
     (if truthy (folderParentId folderEntity) then
        (case PermissionsCollection schema [folder_permission folderEntity] None of
           Inl e \<Rightarrow> Inl e
         | Inr currentPermissions \<Rightarrow>
           (case cloneParentPermissions schema parent Folder (folder_id folderEntity) of
              Inl e \<Rightarrow> Inl e
            | Inr targetPermissions \<Rightarrow>
              if keepOwnership = None \<or> keepOwnership = Some True
              then
                (case addOrReplace schema (folder_permission folderEntity) targetPermissions of
                   (Inl e, _) \<Rightarrow> Inl e
                 | (Inr _, targetPermissions') \<Rightarrow>
                     Inr (Some (currentPermissions, targetPermissions')))
              else Inr (Some (currentPermissions, targetPermissions))))
      else Inr None)"


section \<open>Object identity\<close>

text \<open>
  Entities are JavaScript objects: a collection holds references, and two references may
  denote one object. To speak of what a caller can do to a member through a reference it
  still holds, the operations that insert are also given over a store of objects. A
  reference is an index into the store, a new object is put at its end; a reference held
  by a program always denotes an object of the store.
\<close>

type_synonym heap = "permission list"

datatype push_ref_arg = NotAnObjectRef | DtoValue permission | EntityRef nat

text \<open>The members of a collection, read through the store.\<close>

definition members :: "heap \<Rightarrow> nat list \<Rightarrow> permission list" where
  "members h items = map (\<lambda>r. h ! r) items"

text \<open>
  \<^verbatim>\<open>push\<close> over the store. For an entity, \<^verbatim>\<open>toDto\<close> makes a fresh plain record of it
  (the deep clone), and \<^verbatim>\<open>new PermissionEntity\<close> makes a new object of the record; the new
  object stays in the store when an assertion throws, but nothing refers to it.
\<close>

definition push_h_dto ::
  "(permission \<Rightarrow> bool) \<Rightarrow> permission \<Rightarrow> heap \<times> nat list
     \<Rightarrow> (error + unit) \<times> (heap \<times> nat list)" where
  "push_h_dto schema dto s =
     (case s of (h, items) \<Rightarrow>
       (case new_PermissionEntity schema dto of
          Inl e \<Rightarrow> (Inl e, (h, items))
        | Inr newPermission \<Rightarrow>
          (let newRef = length h; h' = h @ [newPermission] in
           case assertSameAco (members h' items) newPermission of
             Inl e \<Rightarrow> (Inl e, (h', items))
           | Inr _ \<Rightarrow>
             (case assertUniqueId (members h' items) newPermission of
                Inl e \<Rightarrow> (Inl e, (h', items))
              | Inr _ \<Rightarrow>
                (case assertUniqueAro (members h' items) newPermission of
                   Inl e \<Rightarrow> (Inl e, (h', items))
                 | Inr _ \<Rightarrow> (Inr (), (h', items @ [newRef])))))))"

definition push_h ::
  "(permission \<Rightarrow> bool) \<Rightarrow> push_ref_arg \<Rightarrow> heap \<times> nat list
     \<Rightarrow> (error + unit) \<times> (heap \<times> nat list)" where
  "push_h schema arg s =
     (case arg of
        NotAnObjectRef \<Rightarrow> (Inl TypeError, s)
      | EntityRef a \<Rightarrow> push_h_dto schema (toDto (fst s ! a)) s
      | DtoValue d \<Rightarrow> push_h_dto schema d s)"

text \<open>
  Modelled from the spec: \<^verbatim>\<open>PermissionEntity.getHighestPermission\<close> (missing from the
  sources) gives "whichever of the two" has the higher level: one of its two arguments,
  the object itself.
\<close>

definition getHighestPermission_ref :: "heap \<Rightarrow> nat \<Rightarrow> nat \<Rightarrow> nat" where
  "getHighestPermission_ref h a b =
     (if level_rank (perm_type (h ! a)) < level_rank (perm_type (h ! b)) then b else a)"

text \<open>
  \<^verbatim>\<open>addOrReplace\<close> over the store; \<open>a\<close> is the reference the caller passes. In the catch
  block \<^verbatim>\<open>permission\<close> is still the caller's object: the copy made by the failed
  \<^verbatim>\<open>push\<close> was local to it.
\<close>

definition addOrReplace_h ::
  "(permission \<Rightarrow> bool) \<Rightarrow> nat \<Rightarrow> heap \<times> nat list \<Rightarrow> (error + unit) \<times> (heap \<times> nat list)" where
  "addOrReplace_h schema a s =
     (case push_h schema (EntityRef a) s of
        (Inr u, s') \<Rightarrow> (Inr (), s')
      | (Inl err, (h', items')) \<Rightarrow>
        (case err of
           EntityCollectionError position r \<Rightarrow>
             if r \<notin> set recover then (Inl err, (h', items'))
             else if position < length items' then
               (let existingPermission = items' ! position in
                if isAcoAndAroMatching (h' ! existingPermission) (h' ! a)
                then (Inr (),
                      (h', items'[position := getHighestPermission_ref h' existingPermission a]))
                else (Inl err, (h', items')))
             else (Inl TypeError, (h', items'))
         | _ \<Rightarrow> (Inl err, (h', items'))))"

text \<open>A caller that holds the reference \<open>a\<close> changes the object it denotes.\<close>

definition mutate :: "heap \<Rightarrow> nat \<Rightarrow> permission \<Rightarrow> heap" where
  "mutate h a p = h[a := p]"


section \<open>Progress controller and resource export controller\<close>

text \<open>
  The controllers act on the outside world only: they emit events on the ports of workers,
  call the remote resource service, write to the tab storage and log to the console. A
  run is modelled by its outcome and the sequence of these events. The payloads of the
  events (titles, goals, messages, resources) are not modelled.
\<close>

datatype js_failure = NotAFunction string | ServiceFailure

record worker =
  worker_name :: string
  tab_id :: nat
  pageMod :: bool

datatype event =
    PortEmit string nat string
  | RemoteFindAll
  | TabStorageSet nat
  | ConsoleError js_failure

text \<open>
  \<open>pageMod\<close> tells whether the property \<^verbatim>\<open>worker.pageMod\<close> is defined. \<^verbatim>\<open>Worker.get\<close>
  (missing from the sources) is taken to find the worker of the given name on the tab.
\<close>

definition isLegacyWorker :: "worker \<Rightarrow> bool" where
  "isLegacyWorker w = pageMod w"

definition getProgressWorker :: "worker \<Rightarrow> string" where
  "getProgressWorker srcWorker =
     (if isLegacyWorker srcWorker then ''ReactApp'' else worker_name srcWorker)"

definition start :: "worker \<Rightarrow> event list" where
  "start w =
     (if isLegacyWorker w then [PortEmit ''App'' (tab_id w) ''passbolt.app.show''] else []) @
     [PortEmit (getProgressWorker w) (tab_id w) ''passbolt.progress.start'']"

definition complete :: "worker \<Rightarrow> event list" where
  "complete w =
     [PortEmit (getProgressWorker w) (tab_id w) ''passbolt.progress.complete''] @
     (if isLegacyWorker w then [PortEmit ''App'' (tab_id w) ''passbolt.app.hide''] else [])"

definition update :: "worker \<Rightarrow> event list" where
  "update w = [PortEmit (getProgressWorker w) (tab_id w) ''passbolt.progress.update'']"

definition updateGoals :: "worker \<Rightarrow> event list" where
  "updateGoals w = [PortEmit (getProgressWorker w) (tab_id w) ''passbolt.progress.update-goals'']"

text \<open>
  A module is the table of what it exports. \<^verbatim>\<open>progressController.js\<close> exports
  \<^verbatim>\<open>start\<close>, \<^verbatim>\<open>complete\<close>, \<^verbatim>\<open>update\<close> and \<^verbatim>\<open>updateGoals\<close>; every other property of the
  module is undefined.
\<close>

definition progressController :: "string \<Rightarrow> (worker \<Rightarrow> event list) option" where
  "progressController name =
     (if name = ''start'' then Some start
      else if name = ''complete'' then Some complete
      else if name = ''update'' then Some update
      else if name = ''updateGoals'' then Some updateGoals
      else None)"

text \<open>Calling a property of a module: calling what is undefined throws a TypeError.\<close>

definition call_export ::
  "(string \<Rightarrow> (worker \<Rightarrow> event list) option) \<Rightarrow> string \<Rightarrow> worker \<Rightarrow> js_failure + event list" where
  "call_export module name w =
     (case module name of None \<Rightarrow> Inl (NotAFunction name) | Some f \<Rightarrow> Inr (f w))"

text \<open>
  The body of the \<^verbatim>\<open>try\<close> block of \<^verbatim>\<open>ResourceExportController.exec\<close>. The controller
  module is a parameter, \<open>remote\<close> is the outcome of the call of the resource service. The
  dialog promise, the tab storage and the port of the worker are taken not to fail.
\<close>

definition exec_try ::
  "(string \<Rightarrow> (worker \<Rightarrow> event list) option) \<Rightarrow> js_failure + unit \<Rightarrow> worker
     \<Rightarrow> (js_failure + unit) \<times> event list" where
  "exec_try module remote w =
     (case call_export module ''open'' w of
        Inl e \<Rightarrow> (Inl e, [])
      | Inr opened \<Rightarrow>
        (case remote of
           Inl e \<Rightarrow> (Inl e, opened @ [RemoteFindAll])
         | Inr resources \<Rightarrow>
           (case call_export module ''close'' w of
              Inl e \<Rightarrow> (Inl e, opened @ [RemoteFindAll])
            | Inr closed \<Rightarrow>
                (Inr (),
                 opened @ [RemoteFindAll] @ closed @
                 [TabStorageSet (tab_id w),
                  PortEmit (worker_name w) (tab_id w) ''passbolt.export-passwords.open-dialog'']))))"

text \<open>
  \<^verbatim>\<open>exec\<close>: the \<^verbatim>\<open>catch\<close> block logs what the \<^verbatim>\<open>try\<close> block throws, and the
  \<^verbatim>\<open>finally\<close> block calls \<^verbatim>\<open>close\<close>; what the \<^verbatim>\<open>finally\<close> block throws reaches the
  caller.
\<close>

definition exec ::
  "(string \<Rightarrow> (worker \<Rightarrow> event list) option) \<Rightarrow> js_failure + unit \<Rightarrow> worker
     \<Rightarrow> (js_failure + unit) \<times> event list" where
  "exec module remote w =
     (case exec_try module remote w of
        (r, trace) \<Rightarrow>
          (let logged = (case r of Inl e \<Rightarrow> trace @ [ConsoleError e] | Inr _ \<Rightarrow> trace) in
           case call_export module ''close'' w of
             Inl e \<Rightarrow> (Inl e, logged)
           | Inr closed \<Rightarrow> (Inr (), logged @ closed)))"


section \<open>Auxiliary notions for the proofs\<close>

text \<open>
  What folding one permission \<open>b\<close>, and then a list of permissions, into a member \<open>e\<close> of a
  collection amounts to when every one of them finds a member about its ARO: the member
  about the ARO of \<open>b\<close> is compared with \<open>b\<close>, every other member is kept.
\<close>

definition mergeInto :: "permission \<Rightarrow> permission \<Rightarrow> permission" where
  "mergeInto b e = (if isAroMatching e b then getHighestPermission e b else e)"

definition mergeAll :: "permission list \<Rightarrow> permission \<Rightarrow> permission" where
  "mergeAll bs e = foldl (\<lambda>e b. mergeInto b e) e bs"


section \<open>Example data\<close>

text \<open>
  A schema for the examples: the keys of the ACO and of the ARO are not empty, and an
  identifier that is set is not empty.
\<close>

definition example_schema :: "permission \<Rightarrow> bool" where
  "example_schema p =
     (aco_foreign_key p \<noteq> [] \<and> aro_foreign_key p \<noteq> [] \<and> perm_id p \<noteq> Some [])"

abbreviation r1_u1_read :: permission where
  "r1_u1_read \<equiv> \<lparr>perm_id = Some ''p1'', aco = Resource, aco_foreign_key = ''r1'',
     aro = User, aro_foreign_key = ''u1'', perm_type = Read\<rparr>"

abbreviation r1_u2_owner :: permission where
  "r1_u2_owner \<equiv> \<lparr>perm_id = Some ''p2'', aco = Resource, aco_foreign_key = ''r1'',
     aro = User, aro_foreign_key = ''u2'', perm_type = Owner\<rparr>"

abbreviation r1_u1_update_p2 :: permission where
  "r1_u1_update_p2 \<equiv> \<lparr>perm_id = Some ''p2'', aco = Resource, aco_foreign_key = ''r1'',
     aro = User, aro_foreign_key = ''u1'', perm_type = Update\<rparr>"

abbreviation r1_u1_owner_p9 :: permission where
  "r1_u1_owner_p9 \<equiv> \<lparr>perm_id = Some ''p9'', aco = Resource, aco_foreign_key = ''r1'',
     aro = User, aro_foreign_key = ''u1'', perm_type = Owner\<rparr>"

abbreviation f1_u2_read_new :: permission where
  "f1_u2_read_new \<equiv> \<lparr>perm_id = None, aco = Folder, aco_foreign_key = ''f1'',
     aro = User, aro_foreign_key = ''u2'', perm_type = Read\<rparr>"

abbreviation r1_u2_read_p9 :: permission where
  "r1_u2_read_p9 \<equiv> \<lparr>perm_id = Some ''p9'', aco = Resource, aco_foreign_key = ''r1'',
     aro = User, aro_foreign_key = ''u2'', perm_type = Read\<rparr>"

abbreviation r1_u1_read_new :: permission where
  "r1_u1_read_new \<equiv> \<lparr>perm_id = None, aco = Resource, aco_foreign_key = ''r1'',
     aro = User, aro_foreign_key = ''u1'', perm_type = Read\<rparr>"

abbreviation f1_u1_owner_new :: permission where
  "f1_u1_owner_new \<equiv> \<lparr>perm_id = None, aco = Folder, aco_foreign_key = ''f1'',
     aro = User, aro_foreign_key = ''u1'', perm_type = Owner\<rparr>"

abbreviation r1_u1_owner_p2 :: permission where
  "r1_u1_owner_p2 \<equiv> \<lparr>perm_id = Some ''p2'', aco = Resource, aco_foreign_key = ''r1'',
     aro = User, aro_foreign_key = ''u1'', perm_type = Owner\<rparr>"

text \<open>
  The example of the spec for \<^verbatim>\<open>applyPermissionFromParent\<close>: the parent folder \<open>f0\<close> grants
  Owner to user \<open>u1\<close>; the current user \<open>u2\<close> owns the folder \<open>f1\<close> inside it.
\<close>

abbreviation f0_u1_owner :: permission where
  "f0_u1_owner \<equiv> \<lparr>perm_id = Some ''p5'', aco = Folder, aco_foreign_key = ''f0'',
     aro = User, aro_foreign_key = ''u1'', perm_type = Owner\<rparr>"

abbreviation f1_u1_owner :: permission where
  "f1_u1_owner \<equiv> \<lparr>perm_id = Some ''p5'', aco = Folder, aco_foreign_key = ''f1'',
     aro = User, aro_foreign_key = ''u1'', perm_type = Owner\<rparr>"

abbreviation f1_u2_owner :: permission where
  "f1_u2_owner \<equiv> \<lparr>perm_id = Some ''p6'', aco = Folder, aco_foreign_key = ''f1'',
     aro = User, aro_foreign_key = ''u2'', perm_type = Owner\<rparr>"

abbreviation folder_f1 :: folder where
  "folder_f1 \<equiv> \<lparr>folder_id = ''f1'', folderParentId = Some ''f0'',
     folder_permission = f1_u2_owner\<rparr>"

text \<open>
  Variants of the folder \<open>f1\<close>: the current user has only Update on it; its own permission
  is about a resource; its own permission carries the identifier of the parent's
  permission for \<open>u1\<close>.
\<close>

abbreviation f1_u2_update :: permission where
  "f1_u2_update \<equiv> \<lparr>perm_id = Some ''p6'', aco = Folder, aco_foreign_key = ''f1'',
     aro = User, aro_foreign_key = ''u2'', perm_type = Update\<rparr>"

abbreviation f1_u2_owner_p5 :: permission where
  "f1_u2_owner_p5 \<equiv> \<lparr>perm_id = Some ''p5'', aco = Folder, aco_foreign_key = ''f1'',
     aro = User, aro_foreign_key = ''u2'', perm_type = Owner\<rparr>"

abbreviation folder_f1_update :: folder where
  "folder_f1_update \<equiv> \<lparr>folder_id = ''f1'', folderParentId = Some ''f0'',
     folder_permission = f1_u2_update\<rparr>"

abbreviation folder_f1_resource :: folder where
  "folder_f1_resource \<equiv> \<lparr>folder_id = ''f1'', folderParentId = Some ''f0'',
     folder_permission = r1_u2_owner\<rparr>"

abbreviation folder_f1_p5 :: folder where
  "folder_f1_p5 \<equiv> \<lparr>folder_id = ''f1'', folderParentId = Some ''f0'',
     folder_permission = f1_u2_owner_p5\<rparr>"


section \<open>Evaluating the operations on concrete data\<close>

text \<open>The definitions that the simplifier unfolds to run an operation on given data.\<close>

lemmas assert_defs = assertSameAco_def assertUniqueId_def assertUniqueAro_def truthy_def
  isAroMatching_def isAcoMatching_def isAcoAndAroMatching_def

lemmas push_eval = push_def push_dto_def new_PermissionEntity_def toDto_def assert_defs

lemmas inv_eval = collectionInv_def sameAcoInv_def uniqueAroInv_def uniqueIdInv_def aroKey_def
  isAcoMatching_def truthy_def

lemmas constructor_eval = PermissionsCollection_def push_eval isOwner_def

lemmas union_eval = unionByAcoAndType_def constructor_eval addOrReplace_def recover_def
  getHighestPermission_def

lemmas folder_eval = applyPermissionFromParent_def cloneParentPermissions_def
  copyForAnotherAco_def constructor_eval addOrReplace_def recover_def getHighestPermission_def

lemmas heap_eval = addOrReplace_h_def push_h_def push_h_dto_def members_def getHighestPermission_ref_def
  mutate_def new_PermissionEntity_def toDto_def assert_defs recover_def Let_def


section \<open>Properties of the assertions\<close>

lemma uniqueId_loop_Inr:
  "uniqueId_loop i es p = Inr u \<longleftrightarrow> (\<forall>e\<in>set es. \<not> idClash e p)"
  by (induction es arbitrary: i) (auto simp: idClash_def)

lemma first_match_Cons:
  "(\<exists>k<length (e # es). Q k \<and> P ((e # es) ! k) \<and> (\<forall>j<k. \<not> P ((e # es) ! j))) \<longleftrightarrow>
   (if P e then Q 0
    else (\<exists>k<length es. Q (Suc k) \<and> P (es ! k) \<and> (\<forall>j<k. \<not> P (es ! j))))"
  (is "?L \<longleftrightarrow> ?R")
proof (cases "P e")
  case True
  have "?L \<longleftrightarrow> Q 0"
  proof
    assume ?L
    then obtain k where k: "Q k" "\<forall>j<k. \<not> P ((e # es) ! j)" by blast
    have "k = 0"
    proof (rule ccontr)
      assume "k \<noteq> 0"
      then have "\<not> P ((e # es) ! 0)" using k(2) by blast
      then show False using True by simp
    qed
    then show "Q 0" using k(1) by simp
  next
    assume "Q 0"
    then show ?L using True by (intro exI[of _ 0]) simp
  qed
  then show ?thesis using True by simp
next
  case False
  have "?L \<longleftrightarrow> (\<exists>k<length es. Q (Suc k) \<and> P (es ! k) \<and> (\<forall>j<k. \<not> P (es ! j)))"
    (is "_ \<longleftrightarrow> ?T")
  proof
    assume ?L
    then obtain k where k: "k < length (e # es)" "Q k" "P ((e # es) ! k)"
      "\<forall>j<k. \<not> P ((e # es) ! j)" by blast
    from k(3) False obtain k' where k': "k = Suc k'" by (cases k) auto
    have "\<forall>j<k'. \<not> P (es ! j)"
    proof (intro allI impI)
      fix j assume "j < k'"
      then have "Suc j < k" using k' by simp
      then have "\<not> P ((e # es) ! Suc j)" using k(4) by blast
      then show "\<not> P (es ! j)" by simp
    qed
    then show ?T using k k' by (intro exI[of _ k']) simp
  next
    assume ?T
    then obtain k where k: "k < length es" "Q (Suc k)" "P (es ! k)" "\<forall>j<k. \<not> P (es ! j)"
      by blast
    have "\<forall>j<Suc k. \<not> P ((e # es) ! j)"
    proof (intro allI impI)
      fix j assume "j < Suc k"
      then show "\<not> P ((e # es) ! j)" using False k(4) by (cases j) auto
    qed
    then show ?L using k by (intro exI[of _ "Suc k"]) simp
  qed
  then show ?thesis using False by simp
qed

lemma uniqueId_loop_Inl:
  "uniqueId_loop i es p = Inl err \<longleftrightarrow>
     (\<exists>k<length es. err = EntityCollectionError (i + k) RULE_UNIQUE_ID \<and> idClash (es ! k) p \<and>
        (\<forall>j<k. \<not> idClash (es ! j) p))"
proof (induction es arbitrary: i)
  case Nil
  show ?case by simp
next
  case (Cons e es)
  have "uniqueId_loop i (e # es) p =
      (if idClash e p then Inl (EntityCollectionError i RULE_UNIQUE_ID)
       else uniqueId_loop (Suc i) es p)"
    by (auto simp: idClash_def)
  then show ?case
    using Cons.IH[of "Suc i"]
      first_match_Cons[of e es "\<lambda>k. err = EntityCollectionError (i + k) RULE_UNIQUE_ID"
        "\<lambda>e. idClash e p"]
    by auto
qed

lemma uniqueAro_loop_Inr:
  "uniqueAro_loop i es p = Inr u \<longleftrightarrow> (\<forall>e\<in>set es. \<not> isAroMatching p e)"
  by (induction es arbitrary: i) auto

lemma uniqueAro_loop_Inl:
  "uniqueAro_loop i es p = Inl err \<longleftrightarrow>
     (\<exists>k<length es. err = EntityCollectionError (i + k) RULE_UNIQUE_ARO \<and> isAroMatching p (es ! k) \<and>
        (\<forall>j<k. \<not> isAroMatching p (es ! j)))"
proof (induction es arbitrary: i)
  case Nil
  show ?case by simp
next
  case (Cons e es)
  show ?case
    using Cons.IH[of "Suc i"]
      first_match_Cons[of e es "\<lambda>k. err = EntityCollectionError (i + k) RULE_UNIQUE_ARO"
        "\<lambda>e. isAroMatching p e"]
    by auto
qed

lemma assertSameAco_Inr:
  "assertSameAco items p = Inr u \<longleftrightarrow> (items = [] \<or> isAcoMatching p (items ! 0))"
  by (simp add: assertSameAco_def)

lemma assertSameAco_Inl:
  "assertSameAco items p = Inl err \<longleftrightarrow>
     (items \<noteq> [] \<and> \<not> isAcoMatching p (items ! 0) \<and> err = EntityCollectionError 0 RULE_SAME_ACO)"
  by (auto simp: assertSameAco_def)

lemma assertUniqueId_Inr:
  "assertUniqueId items p = Inr u \<longleftrightarrow> (truthy (perm_id p) \<longrightarrow> (\<forall>e\<in>set items. \<not> idClash e p))"
  by (simp add: assertUniqueId_def uniqueId_loop_Inr)

lemma assertUniqueId_Inl:
  "assertUniqueId items p = Inl err \<longleftrightarrow>
     (truthy (perm_id p) \<and>
      (\<exists>k<length items. err = EntityCollectionError k RULE_UNIQUE_ID \<and> idClash (items ! k) p \<and>
         (\<forall>j<k. \<not> idClash (items ! j) p)))"
  by (simp add: assertUniqueId_def uniqueId_loop_Inl)

lemma assertUniqueAro_Inr:
  "assertUniqueAro items p = Inr u \<longleftrightarrow> (\<forall>e\<in>set items. \<not> isAroMatching p e)"
  by (simp add: assertUniqueAro_def uniqueAro_loop_Inr)

lemma assertUniqueAro_Inl:
  "assertUniqueAro items p = Inl err \<longleftrightarrow>
     (\<exists>k<length items. err = EntityCollectionError k RULE_UNIQUE_ARO \<and> isAroMatching p (items ! k) \<and>
        (\<forall>j<k. \<not> isAroMatching p (items ! j)))"
  by (simp add: assertUniqueAro_def uniqueAro_loop_Inl)

section \<open>Properties of push\<close>

lemma push_valid:
  assumes "schema p" and "arg = Dto p \<or> arg = Entity p"
  shows "push schema arg items =
     (case assertSameAco items p of
        Inl e \<Rightarrow> (Inl e, items)
      | Inr _ \<Rightarrow>
        (case assertUniqueId items p of
           Inl e \<Rightarrow> (Inl e, items)
         | Inr _ \<Rightarrow>
           (case assertUniqueAro items p of
              Inl e \<Rightarrow> (Inl e, items)
            | Inr _ \<Rightarrow> (Inr (), items @ [p]))))"
  using assms by (auto simp: push_def push_dto_def new_PermissionEntity_def toDto_def)

lemma push_invalid:
  assumes "\<not> schema p" and "arg = Dto p \<or> arg = Entity p"
  shows "push schema arg items = (Inl EntityValidationError, items)"
  using assms by (auto simp: push_def push_dto_def new_PermissionEntity_def toDto_def)

lemma push_same_aco_error:
  assumes "schema p" and "arg = Dto p \<or> arg = Entity p"
    and "items \<noteq> []" and "\<not> isAcoMatching p (items ! 0)"
  shows "push schema arg items = (Inl (EntityCollectionError 0 RULE_SAME_ACO), items)"
proof -
  have "assertSameAco items p = Inl (EntityCollectionError 0 RULE_SAME_ACO)"
    using assms(3,4) by (simp add: assertSameAco_Inl)
  then show ?thesis by (simp add: push_valid[where schema=schema and p=p and arg=arg, OF assms(1,2)])
qed

lemma push_unique_id_error:
  assumes "schema p" and "arg = Dto p \<or> arg = Entity p"
    and "items = [] \<or> isAcoMatching p (items ! 0)"
    and "truthy (perm_id p)" and "i < length items" and "idClash (items ! i) p"
    and "\<forall>j<i. \<not> idClash (items ! j) p"
  shows "push schema arg items = (Inl (EntityCollectionError i RULE_UNIQUE_ID), items)"
proof -
  have a: "assertSameAco items p = Inr ()"
    using assms(3) by (simp add: assertSameAco_Inr)
  have b: "assertUniqueId items p = Inl (EntityCollectionError i RULE_UNIQUE_ID)"
    unfolding assertUniqueId_Inl using assms(4-7) by blast
  show ?thesis by (simp add: push_valid[where schema=schema and p=p and arg=arg, OF assms(1,2)] a b)
qed

lemma push_unique_aro_error:
  assumes "schema p" and "arg = Dto p \<or> arg = Entity p"
    and "items = [] \<or> isAcoMatching p (items ! 0)"
    and "truthy (perm_id p) \<longrightarrow> (\<forall>e\<in>set items. \<not> idClash e p)"
    and "i < length items" and "isAroMatching p (items ! i)"
    and "\<forall>j<i. \<not> isAroMatching p (items ! j)"
  shows "push schema arg items = (Inl (EntityCollectionError i RULE_UNIQUE_ARO), items)"
proof -
  have a: "assertSameAco items p = Inr ()"
    using assms(3) by (simp add: assertSameAco_Inr)
  have b: "assertUniqueId items p = Inr ()"
    using assms(4) by (simp add: assertUniqueId_Inr)
  have c: "assertUniqueAro items p = Inl (EntityCollectionError i RULE_UNIQUE_ARO)"
    unfolding assertUniqueAro_Inl using assms(5-7) by blast
  show ?thesis by (simp add: push_valid[where schema=schema and p=p and arg=arg, OF assms(1,2)] a b c)
qed

lemma push_success:
  assumes "schema p" and "arg = Dto p \<or> arg = Entity p"
    and "items = [] \<or> isAcoMatching p (items ! 0)"
    and "truthy (perm_id p) \<longrightarrow> (\<forall>e\<in>set items. \<not> idClash e p)"
    and "\<forall>e\<in>set items. \<not> isAroMatching p e"
  shows "push schema arg items = (Inr (), items @ [p])"
proof -
  have a: "assertSameAco items p = Inr ()"
    using assms(3) by (simp add: assertSameAco_Inr)
  have b: "assertUniqueId items p = Inr ()"
    using assms(4) by (simp add: assertUniqueId_Inr)
  have c: "assertUniqueAro items p = Inr ()"
    using assms(5) by (simp add: assertUniqueAro_Inr)
  show ?thesis by (simp add: push_valid[where schema=schema and p=p and arg=arg, OF assms(1,2)] a b c)
qed

section \<open>Order of validation and failed pushes\<close>

text \<open>
  Claim C4. On a record that passes the schema, \<^verbatim>\<open>push\<close> checks the same-ACO rule first
  (not at all on an empty collection) and throws SAME_ACO at position 0; then, for a
  record with an identifier, the unique-id rule, throwing UNIQUE_ID with the position of
  the first member that carries the identifier; then the unique-ARO rule, throwing
  UNIQUE_ARO with the position of the first member about the same ARO; and otherwise
  appends the record after the members. A record that breaks both the unique-id and the
  unique-ARO rule therefore gets UNIQUE_ID. The members are unchanged by every throw.
\<close>

theorem push_validates_in_order:
  assumes "schema p" and "arg = Dto p \<or> arg = Entity p"
  shows
   "(items \<noteq> [] \<and> \<not> isAcoMatching p (items ! 0) \<longrightarrow>
       push schema arg items = (Inl (EntityCollectionError 0 RULE_SAME_ACO), items)) \<and>
    ((items = [] \<or> isAcoMatching p (items ! 0)) \<and> truthy (perm_id p) \<and>
      i < length items \<and> idClash (items ! i) p \<and> (\<forall>j<i. \<not> idClash (items ! j) p) \<longrightarrow>
       push schema arg items = (Inl (EntityCollectionError i RULE_UNIQUE_ID), items)) \<and>
    ((items = [] \<or> isAcoMatching p (items ! 0)) \<and>
      (truthy (perm_id p) \<longrightarrow> (\<forall>e\<in>set items. \<not> idClash e p)) \<and>
      i < length items \<and> isAroMatching p (items ! i) \<and> (\<forall>j<i. \<not> isAroMatching p (items ! j)) \<longrightarrow>
       push schema arg items = (Inl (EntityCollectionError i RULE_UNIQUE_ARO), items)) \<and>
    ((items = [] \<or> isAcoMatching p (items ! 0)) \<and>
      (truthy (perm_id p) \<longrightarrow> (\<forall>e\<in>set items. \<not> idClash e p)) \<and>
      (\<forall>e\<in>set items. \<not> isAroMatching p e) \<longrightarrow>
       push schema arg items = (Inr (), items @ [p]))"
  using push_same_aco_error[where schema=schema and p=p and arg=arg and items=items, OF assms]
    push_unique_id_error[where schema=schema and p=p and arg=arg and items=items and i=i, OF assms]
    push_unique_aro_error[where schema=schema and p=p and arg=arg and items=items and i=i, OF assms]
    push_success[where schema=schema and p=p and arg=arg and items=items, OF assms]
  by blast

theorem push_validates_in_order_witness:
  "example_schema r1_u1_update_p2 \<and>
   idClash ([r1_u1_read, r1_u2_owner] ! 1) r1_u1_update_p2 \<and>
   isAroMatching r1_u1_update_p2 ([r1_u1_read, r1_u2_owner] ! 0) \<and>
   push example_schema (Dto r1_u1_update_p2) [r1_u1_read, r1_u2_owner] =
     (Inl (EntityCollectionError 1 RULE_UNIQUE_ID), [r1_u1_read, r1_u2_owner])"
  using push_validates_in_order[of example_schema r1_u1_update_p2 "Dto r1_u1_update_p2"
      "[r1_u1_read, r1_u2_owner]" 1]
  by (simp add: example_schema_def idClash_def assert_defs)

text \<open>
  Claim C9. Whenever \<^verbatim>\<open>push\<close> throws (a type error, a validation error or a violation
  of a rule of the collection), the members are what they were before the call.
\<close>

theorem failed_push_keeps_members:
  "fst (push schema arg items) = Inl e \<Longrightarrow> snd (push schema arg items) = items"
  by (auto simp: push_def push_dto_def Let_def split: push_arg.splits sum.splits)

theorem failed_push_keeps_members_witness:
  "fst (push example_schema (Dto r1_u1_update_p2) [r1_u1_read, r1_u2_owner]) =
     Inl (EntityCollectionError 1 RULE_UNIQUE_ID) \<and>
   snd (push example_schema (Dto r1_u1_update_p2) [r1_u1_read, r1_u2_owner]) =
     [r1_u1_read, r1_u2_owner]"
proof -
  have h: "fst (push example_schema (Dto r1_u1_update_p2) [r1_u1_read, r1_u2_owner]) =
     Inl (EntityCollectionError 1 RULE_UNIQUE_ID)"
    by (simp add: push_eval example_schema_def)
  show ?thesis using h failed_push_keeps_members[OF h] by simp
qed


section \<open>Basic facts about the invariants and about push\<close>

lemma isAcoMatching_refl: "isAcoMatching p p"
  by (simp add: isAcoMatching_def)

lemma isAcoMatching_sym: "isAcoMatching p q \<Longrightarrow> isAcoMatching q p"
  by (simp add: isAcoMatching_def)

lemma isAroMatching_aroKey: "isAroMatching a b \<longleftrightarrow> aroKey a = aroKey b"
  by (simp add: isAroMatching_def aroKey_def)

lemma idClash_sym: "idClash a b \<Longrightarrow> idClash b a"
  by (auto simp: idClash_def)

lemma distinct_filter_nth:
  "distinct (filter P xs) \<longleftrightarrow>
     (\<forall>i<length xs. \<forall>j<length xs. i \<noteq> j \<longrightarrow> P (xs ! i) \<longrightarrow> xs ! i \<noteq> xs ! j)"
  (is "_ \<longleftrightarrow> ?Q xs")
proof (induction xs)
  case Nil
  show ?case by simp
next
  case (Cons x xs)
  have "?Q (x # xs) \<longleftrightarrow> (P x \<longrightarrow> x \<notin> set xs) \<and> ?Q xs"
  proof (intro iffI conjI)
    assume q: "?Q (x # xs)"
    show "P x \<longrightarrow> x \<notin> set xs"
    proof (intro impI notI)
      assume "P x" and "x \<in> set xs"
      then obtain j where j: "j < length xs" "xs ! j = x" by (auto simp: in_set_conv_nth)
      from q have "0 < length (x # xs) \<longrightarrow> Suc j < length (x # xs) \<longrightarrow> 0 \<noteq> Suc j
          \<longrightarrow> P ((x # xs) ! 0) \<longrightarrow> (x # xs) ! 0 \<noteq> (x # xs) ! Suc j" by blast
      with j \<open>P x\<close> show False by simp
    qed
    show "?Q xs"
    proof (intro allI impI)
      fix i j assume a: "i < length xs" "j < length xs" "i \<noteq> j" "P (xs ! i)"
      from q have "Suc i < length (x # xs) \<longrightarrow> Suc j < length (x # xs) \<longrightarrow> Suc i \<noteq> Suc j
          \<longrightarrow> P ((x # xs) ! Suc i) \<longrightarrow> (x # xs) ! Suc i \<noteq> (x # xs) ! Suc j" by blast
      with a show "xs ! i \<noteq> xs ! j" by simp
    qed
  next
    assume r: "(P x \<longrightarrow> x \<notin> set xs) \<and> ?Q xs"
    show "?Q (x # xs)"
    proof (intro allI impI)
      fix i j
      assume a: "i < length (x # xs)" "j < length (x # xs)" "i \<noteq> j" "P ((x # xs) ! i)"
      show "(x # xs) ! i \<noteq> (x # xs) ! j"
      proof (cases i)
        case 0
        then obtain j' where j': "j = Suc j'" using a(3) by (cases j) auto
        have "x \<notin> set xs" using r a(4) 0 by simp
        then show ?thesis using 0 j' a(2) by (auto simp: in_set_conv_nth)
      next
        case (Suc i')
        show ?thesis
        proof (cases j)
          case 0
          have "xs ! i' \<in> set xs" using a(1) Suc by simp
          then show ?thesis using r a(4) Suc 0 by auto
        next
          case (Suc j')
          then show ?thesis using r a \<open>i = Suc i'\<close> by simp
        qed
      qed
    qed
  qed
  moreover have "distinct (filter P (x # xs)) \<longleftrightarrow> (P x \<longrightarrow> x \<notin> set xs) \<and> distinct (filter P xs)"
    by simp
  ultimately show ?case using Cons.IH by simp
qed

lemma uniqueAroInv_nth:
  "uniqueAroInv items \<longleftrightarrow>
     (\<forall>i<length items. \<forall>j<length items. i \<noteq> j \<longrightarrow> \<not> isAroMatching (items ! i) (items ! j))"
  by (simp add: uniqueAroInv_def distinct_conv_nth isAroMatching_aroKey)

lemma uniqueIdInv_nth:
  "uniqueIdInv items \<longleftrightarrow>
     (\<forall>i<length items. \<forall>j<length items. i \<noteq> j \<longrightarrow> \<not> idClash (items ! i) (items ! j))"
  by (simp add: uniqueIdInv_def distinct_filter_nth idClash_def)

lemma sameAcoInv_nth:
  "sameAcoInv items \<longleftrightarrow> (\<forall>i<length items. isAcoMatching (items ! i) (items ! 0))"
proof
  assume s: "sameAcoInv items"
  show "\<forall>i<length items. isAcoMatching (items ! i) (items ! 0)"
  proof (intro allI impI)
    fix i assume "i < length items"
    then have "i < length items" "0 < length items" by auto
    then have "items ! i \<in> set items" "items ! 0 \<in> set items" by (simp_all only: nth_mem)
    then show "isAcoMatching (items ! i) (items ! 0)" using s by (simp add: sameAcoInv_def)
  qed
next
  assume a: "\<forall>i<length items. isAcoMatching (items ! i) (items ! 0)"
  show "sameAcoInv items"
    unfolding sameAcoInv_def
  proof (intro ballI)
    fix p q assume "p \<in> set items" "q \<in> set items"
    then obtain i j where "i < length items" "items ! i = p" "j < length items" "items ! j = q"
      by (auto simp: in_set_conv_nth)
    then have "isAcoMatching p (items ! 0)" "isAcoMatching q (items ! 0)" using a by auto
    then show "isAcoMatching p q" by (simp add: isAcoMatching_def)
  qed
qed


lemma push_result:
  assumes "push schema arg items = (r, items')"
  shows "items' = items \<or>
     (\<exists>p. r = Inr () \<and> items' = items @ [p] \<and> schema p \<and> (arg = Dto p \<or> arg = Entity p) \<and>
        (items = [] \<or> isAcoMatching p (items ! 0)) \<and>
        (truthy (perm_id p) \<longrightarrow> (\<forall>e\<in>set items. \<not> idClash e p)) \<and>
        (\<forall>e\<in>set items. \<not> isAroMatching p e))"
proof (cases arg)
  case NotAnObject
  then show ?thesis using assms by (simp add: push_def push_dto_def)
next
  case (Dto p)
  show ?thesis
  proof (cases "schema p")
    case False
    then show ?thesis using assms Dto push_invalid[of schema p arg items] by simp
  next
    case True
    then show ?thesis
      using assms Dto push_valid[of schema p arg items]
      by (auto simp: assertSameAco_Inr assertUniqueId_Inr assertUniqueAro_Inr
          split: sum.splits)
  qed
next
  case (Entity p)
  show ?thesis
  proof (cases "schema p")
    case False
    then show ?thesis using assms Entity push_invalid[of schema p arg items] by simp
  next
    case True
    then show ?thesis
      using assms Entity push_valid[of schema p arg items]
      by (auto simp: assertSameAco_Inr assertUniqueId_Inr assertUniqueAro_Inr
          split: sum.splits)
  qed
qed

lemma push_failure:
  assumes "push schema (Entity p) items = (Inl err, items')"
  shows "items' = items \<and>
     ((\<not> schema p \<and> err = EntityValidationError) \<or>
      (schema p \<and> items \<noteq> [] \<and> \<not> isAcoMatching p (items ! 0) \<and>
         err = EntityCollectionError 0 RULE_SAME_ACO) \<or>
      (schema p \<and> (items = [] \<or> isAcoMatching p (items ! 0)) \<and> truthy (perm_id p) \<and>
         (\<exists>k<length items. err = EntityCollectionError k RULE_UNIQUE_ID \<and> idClash (items ! k) p \<and>
            (\<forall>j<k. \<not> idClash (items ! j) p))) \<or>
      (schema p \<and> (items = [] \<or> isAcoMatching p (items ! 0)) \<and>
         (\<forall>e\<in>set items. \<not> idClash e p) \<and>
         (\<exists>k<length items. err = EntityCollectionError k RULE_UNIQUE_ARO \<and>
            isAroMatching p (items ! k) \<and> (\<forall>j<k. \<not> isAroMatching p (items ! j)))))"
proof (cases "schema p")
  case False
  then show ?thesis using assms push_invalid[of schema p "Entity p" items] by simp
next
  case True
  note pv = push_valid[of schema p "Entity p" items, simplified, OF True]
  show ?thesis
  proof (cases "assertSameAco items p")
    case (Inl e)
    then have "push schema (Entity p) items = (Inl e, items)" using pv by simp
    then have "items' = items" "err = e" using assms by simp_all
    then show ?thesis using Inl True by (simp add: assertSameAco_Inl)
  next
    case a: (Inr u)
    then have aco: "items = [] \<or> isAcoMatching p (items ! 0)" by (simp add: assertSameAco_Inr)
    show ?thesis
    proof (cases "assertUniqueId items p")
      case (Inl e)
      then have "push schema (Entity p) items = (Inl e, items)" using pv a by simp
      then have "items' = items" "err = e" using assms by simp_all
      then show ?thesis using Inl True aco by (simp add: assertUniqueId_Inl)
    next
      case b: (Inr u')
      have noclash: "\<forall>e\<in>set items. \<not> idClash e p"
      proof (cases "truthy (perm_id p)")
        case True
        then show ?thesis using b by (simp add: assertUniqueId_Inr)
      next
        case False
        then show ?thesis by (auto simp: idClash_def)
      qed
      show ?thesis
      proof (cases "assertUniqueAro items p")
        case (Inl e)
        then have "push schema (Entity p) items = (Inl e, items)" using pv a b by simp
        then have "items' = items" "err = e" using assms by simp_all
        then show ?thesis using Inl True aco noclash by (simp add: assertUniqueAro_Inl)
      next
        case (Inr u'')
        then show ?thesis using assms pv a b by simp
      qed
    qed
  qed
qed

section \<open>Preservation of the invariants\<close>

lemma idClash_truthy: "idClash e p \<Longrightarrow> truthy (perm_id p)"
  by (auto simp: idClash_def)

lemma collectionInv_Nil: "collectionInv []"
  by (simp add: collectionInv_def sameAcoInv_def uniqueAroInv_def uniqueIdInv_def)

lemma collectionInv_snoc_iff:
  "collectionInv (items @ [p]) \<longleftrightarrow>
     collectionInv items \<and> (items = [] \<or> isAcoMatching p (items ! 0)) \<and>
     (\<forall>e\<in>set items. \<not> idClash e p) \<and> (\<forall>e\<in>set items. \<not> isAroMatching p e)"
proof -
  have aco: "sameAcoInv (items @ [p]) \<longleftrightarrow>
      sameAcoInv items \<and> (items = [] \<or> isAcoMatching p (items ! 0))"
  proof (cases "items = []")
    case True
    then show ?thesis by (simp add: sameAcoInv_def isAcoMatching_def)
  next
    case False
    then have mem: "items ! 0 \<in> set items" by simp
    show ?thesis
    proof
      assume s: "sameAcoInv (items @ [p])"
      then have "sameAcoInv items" by (simp add: sameAcoInv_def)
      moreover have "isAcoMatching p (items ! 0)" using s mem by (simp add: sameAcoInv_def)
      ultimately show "sameAcoInv items \<and> (items = [] \<or> isAcoMatching p (items ! 0))" by simp
    next
      assume a: "sameAcoInv items \<and> (items = [] \<or> isAcoMatching p (items ! 0))"
      then have p0: "isAcoMatching p (items ! 0)" using False by simp
      have "\<forall>e\<in>set items. isAcoMatching e (items ! 0)" using a mem by (simp add: sameAcoInv_def)
      then have e: "\<forall>e\<in>set items. isAcoMatching e p \<and> isAcoMatching p e"
        using p0 by (auto simp: isAcoMatching_def)
      have i: "\<forall>x\<in>set items. \<forall>y\<in>set items. isAcoMatching x y"
        using a by (simp add: sameAcoInv_def)
      show "sameAcoInv (items @ [p])"
        unfolding sameAcoInv_def using e i isAcoMatching_refl[of p] by auto
    qed
  qed
  have aro: "uniqueAroInv (items @ [p]) \<longleftrightarrow>
      uniqueAroInv items \<and> (\<forall>e\<in>set items. \<not> isAroMatching p e)"
    by (auto simp: uniqueAroInv_def isAroMatching_aroKey)
  have ids: "uniqueIdInv (items @ [p]) \<longleftrightarrow>
      uniqueIdInv items \<and> (\<forall>e\<in>set items. \<not> idClash e p)"
  proof -
    have "perm_id p \<in> set (map perm_id items) \<longleftrightarrow> (\<exists>e\<in>set items. perm_id e = perm_id p)"
      unfolding set_map image_iff by metis
    then show ?thesis
      by (auto simp: uniqueIdInv_def idClash_def)
  qed
  show ?thesis unfolding collectionInv_def aco aro ids by blast
qed

lemma push_preserves_inv:
  assumes "collectionInv items" and "push schema arg items = (r, items')"
  shows "collectionInv items'"
proof -
  from push_result[OF assms(2)] show ?thesis
  proof
    assume "items' = items"
    then show ?thesis using assms(1) by simp
  next
    assume "\<exists>p. r = Inr () \<and> items' = items @ [p] \<and> schema p \<and> (arg = Dto p \<or> arg = Entity p) \<and>
        (items = [] \<or> isAcoMatching p (items ! 0)) \<and>
        (truthy (perm_id p) \<longrightarrow> (\<forall>e\<in>set items. \<not> idClash e p)) \<and>
        (\<forall>e\<in>set items. \<not> isAroMatching p e)"
    then obtain p where p: "items' = items @ [p]" "items = [] \<or> isAcoMatching p (items ! 0)"
      "truthy (perm_id p) \<longrightarrow> (\<forall>e\<in>set items. \<not> idClash e p)"
      "\<forall>e\<in>set items. \<not> isAroMatching p e" by blast
    have "\<forall>e\<in>set items. \<not> idClash e p" using p(3) idClash_truthy by blast
    then show ?thesis using assms(1) p by (simp add: collectionInv_snoc_iff)
  qed
qed

lemma replace_preserves_inv:
  assumes inv: "collectionInv items" and k: "k < length items"
    and m: "isAcoAndAroMatching (items ! k) p"
    and c: "idClash (items ! k) p \<or> (\<forall>e\<in>set items. \<not> idClash e p)"
  shows "collectionInv (items[k := getHighestPermission (items ! k) p])"
proof (cases "getHighestPermission (items ! k) p = items ! k")
  case True
  then show ?thesis using inv by simp
next
  case False
  then have g: "getHighestPermission (items ! k) p = p"
    by (auto simp: getHighestPermission_def split: if_splits)
  from inv have sa: "\<forall>i<length items. isAcoMatching (items ! i) (items ! 0)"
    and ua: "uniqueAroInv items"
    and ui: "\<forall>i<length items. \<forall>j<length items. i \<noteq> j \<longrightarrow> \<not> idClash (items ! i) (items ! j)"
    by (simp_all add: collectionInv_def sameAcoInv_nth uniqueIdInv_nth)
  from m have aro: "aroKey p = aroKey (items ! k)" and acok: "isAcoMatching p (items ! k)"
    by (simp_all add: isAcoAndAroMatching_def isAroMatching_aroKey isAcoMatching_def)
  have p0: "isAcoMatching p (items ! 0)" using acok sa k by (auto simp: isAcoMatching_def)
  have 1: "sameAcoInv (items[k := p])"
    unfolding sameAcoInv_nth
  proof (intro allI impI)
    fix i assume "i < length (items[k := p])"
    then have i: "i < length items" by simp
    have a: "isAcoMatching (items[k := p] ! i) (items ! 0)"
      using i k p0 sa by (cases "i = k") auto
    have b: "isAcoMatching (items[k := p] ! 0) (items ! 0)"
      using i k p0 sa isAcoMatching_refl[of "items ! 0"] by (cases "0 = k") auto
    show "isAcoMatching (items[k := p] ! i) (items[k := p] ! 0)"
      using a b by (simp add: isAcoMatching_def)
  qed
  have "map aroKey (items[k := p]) = map aroKey items"
    using aro k by (simp add: map_update list_update_same_conv)
  then have 2: "uniqueAroInv (items[k := p])" using ua by (simp add: uniqueAroInv_def)
  have pc: "\<forall>j<length items. j \<noteq> k \<longrightarrow> \<not> idClash (items ! j) p"
  proof (intro allI impI notI)
    fix j assume j: "j < length items" "j \<noteq> k" and cl: "idClash (items ! j) p"
    from c show False
    proof
      assume "idClash (items ! k) p"
      then have "idClash (items ! j) (items ! k)" using cl by (auto simp: idClash_def)
      then show False using ui j k by blast
    next
      assume "\<forall>e\<in>set items. \<not> idClash e p"
      then show False using cl j by simp
    qed
  qed
  have 3: "uniqueIdInv (items[k := p])"
    unfolding uniqueIdInv_nth
  proof (intro allI impI)
    fix i j assume "i < length (items[k := p])" "j < length (items[k := p])" and ne: "i \<noteq> j"
    then have ij: "i < length items" "j < length items" by simp_all
    show "\<not> idClash (items[k := p] ! i) (items[k := p] ! j)"
    proof (cases "i = k")
      case True
      then have "\<not> idClash (items ! j) p" using pc ij ne by simp
      then have "\<not> idClash p (items ! j)" using idClash_sym by blast
      then show ?thesis using True ne k by simp
    next
      case ik: False
      show ?thesis
      proof (cases "j = k")
        case True
        then show ?thesis using pc ij ik k by simp
      next
        case False
        then show ?thesis using ui ij ne ik by simp
      qed
    qed
  qed
  show ?thesis using 1 2 3 g by (simp add: collectionInv_def)
qed

section \<open>The structural invariants hold of every reachable collection\<close>

lemma addOrReplace_push_ok:
  assumes "push schema (Entity p) items = (Inr u, items')"
  shows "addOrReplace schema p items = (Inr (), items')"
  using assms by (simp add: addOrReplace_def)

lemma addOrReplace_push_failed:
  assumes "push schema (Entity p) items = (Inl err, items')"
  shows "addOrReplace schema p items =
     (case err of
        EntityCollectionError position r \<Rightarrow>
          if r \<notin> set recover then (Inl err, items')
          else if position < length items' then
            (if isAcoAndAroMatching (items' ! position) p
             then (Inr (), items'[position := getHighestPermission (items' ! position) p])
             else (Inl err, items'))
          else (Inl TypeError, items')
      | _ \<Rightarrow> (Inl err, items'))"
  using assms by (cases err) (simp_all add: addOrReplace_def Let_def)

lemma addOrReplace_result:
  assumes "addOrReplace schema p items = (r, items')"
  shows "items' = items \<or>
     (r = Inr () \<and> items' = items @ [p] \<and> schema p \<and>
        (items = [] \<or> isAcoMatching p (items ! 0)) \<and>
        (\<forall>e\<in>set items. \<not> idClash e p) \<and> (\<forall>e\<in>set items. \<not> isAroMatching p e)) \<or>
     (r = Inr () \<and> schema p \<and>
        (\<exists>k<length items. items' = items[k := getHighestPermission (items ! k) p] \<and>
           isAcoAndAroMatching (items ! k) p \<and>
           (idClash (items ! k) p \<or> (\<forall>e\<in>set items. \<not> idClash e p))))"
proof (cases "push schema (Entity p) items")
  case (Pair o1 s1)
  show ?thesis
  proof (cases o1)
    case (Inr u)
    then have ar: "addOrReplace schema p items = (Inr (), s1)"
      using Pair addOrReplace_push_ok by simp
    from push_result[of schema "Entity p" items o1 s1] Pair
    have "s1 = items \<or> (\<exists>q. s1 = items @ [q] \<and> schema q \<and> (Entity p = Dto q \<or> Entity p = Entity q) \<and>
        (items = [] \<or> isAcoMatching q (items ! 0)) \<and>
        (truthy (perm_id q) \<longrightarrow> (\<forall>e\<in>set items. \<not> idClash e q)) \<and>
        (\<forall>e\<in>set items. \<not> isAroMatching q e))" by blast
    then show ?thesis
    proof
      assume "s1 = items"
      then show ?thesis using ar assms by simp
    next
      assume "\<exists>q. s1 = items @ [q] \<and> schema q \<and> (Entity p = Dto q \<or> Entity p = Entity q) \<and>
        (items = [] \<or> isAcoMatching q (items ! 0)) \<and>
        (truthy (perm_id q) \<longrightarrow> (\<forall>e\<in>set items. \<not> idClash e q)) \<and>
        (\<forall>e\<in>set items. \<not> isAroMatching q e)"
      then have q: "s1 = items @ [p]" "schema p" "items = [] \<or> isAcoMatching p (items ! 0)"
        "truthy (perm_id p) \<longrightarrow> (\<forall>e\<in>set items. \<not> idClash e p)"
        "\<forall>e\<in>set items. \<not> isAroMatching p e" by auto
      have "\<forall>e\<in>set items. \<not> idClash e p" using q(4) idClash_truthy by blast
      then show ?thesis using ar assms q by simp
    qed
  next
    case (Inl err)
    then have pf: "push schema (Entity p) items = (Inl err, s1)" using Pair by simp
    note f = push_failure[OF pf]
    then have s1: "s1 = items" by simp
    note ar = addOrReplace_push_failed[OF pf, unfolded s1]
    from f consider
        (invalid) "err = EntityValidationError"
      | (aco) "err = EntityCollectionError 0 RULE_SAME_ACO"
      | (id) k where "schema p" "k < length items" "err = EntityCollectionError k RULE_UNIQUE_ID"
          "idClash (items ! k) p"
      | (aro) k where "schema p" "k < length items" "err = EntityCollectionError k RULE_UNIQUE_ARO"
          "\<forall>e\<in>set items. \<not> idClash e p"
      by blast
    then show ?thesis
    proof cases
      case invalid
      then show ?thesis using ar assms by simp
    next
      case aco
      then show ?thesis using ar assms by (simp add: recover_def)
    next
      case id
      then show ?thesis using ar assms by (auto simp: recover_def split: if_splits)
    next
      case aro
      then show ?thesis using ar assms by (auto simp: recover_def split: if_splits)
    qed
  qed
qed

lemma addOrReplace_preserves_inv:
  assumes "collectionInv items" and "addOrReplace schema p items = (r, items')"
  shows "collectionInv items'"
proof -
  from addOrReplace_result[OF assms(2)] consider
      (same) "items' = items"
    | (pushed) "items' = items @ [p]" "items = [] \<or> isAcoMatching p (items ! 0)"
        "\<forall>e\<in>set items. \<not> idClash e p" "\<forall>e\<in>set items. \<not> isAroMatching p e"
    | (replaced) k where "k < length items"
        "items' = items[k := getHighestPermission (items ! k) p]"
        "isAcoAndAroMatching (items ! k) p"
        "idClash (items ! k) p \<or> (\<forall>e\<in>set items. \<not> idClash e p)"
    by blast
  then show ?thesis
  proof cases
    case same
    then show ?thesis using assms(1) by simp
  next
    case pushed
    have "collectionInv (items @ [p])"
      unfolding collectionInv_snoc_iff using assms(1) pushed(2-4) by blast
    then show ?thesis using pushed(1) by simp
  next
    case replaced
    then show ?thesis using replace_preserves_inv[OF assms(1)] by blast
  qed
qed

lemma push_all_preserves_inv:
  "collectionInv items \<Longrightarrow> push_all schema ds items = Inr items' \<Longrightarrow> collectionInv items'"
proof (induction ds arbitrary: items)
  case Nil
  then show ?case by simp
next
  case (Cons d ds)
  then show ?case
    by (auto split: prod.splits sum.splits dest: push_preserves_inv)
qed

lemma addOrReplace_all_preserves_inv:
  "collectionInv items \<Longrightarrow> addOrReplace_all schema ps items = Inr items' \<Longrightarrow> collectionInv items'"
proof (induction ps arbitrary: items)
  case Nil
  then show ?case by simp
next
  case (Cons p ps)
  then show ?case
    by (auto split: prod.splits sum.splits dest: addOrReplace_preserves_inv)
qed

lemma PermissionsCollection_inv:
  assumes "PermissionsCollection schema dtos ov = Inr items"
  shows "collectionInv items"
proof -
  from assms obtain items0 where "push_all schema dtos [] = Inr items0" and "items = items0"
    by (auto simp: PermissionsCollection_def split: if_splits sum.splits)
  then show ?thesis using push_all_preserves_inv[OF collectionInv_Nil] by blast
qed

lemma unionByAcoAndType_inv:
  assumes "unionByAcoAndType schema set1 set2 ov = Inr set3"
  shows "collectionInv set3"
proof -
  from assms obtain s where s: "PermissionsCollection schema (map toDto set1) (Some False) = Inr s"
    and f: "addOrReplace_all schema set2 s = Inr set3"
    by (auto simp: unionByAcoAndType_def split: if_splits sum.splits)
  show ?thesis using addOrReplace_all_preserves_inv[OF PermissionsCollection_inv[OF s] f] .
qed

lemma push_preserves_schema:
  assumes "list_all schema items" and "push schema arg items = (r, items')"
  shows "list_all schema items'"
  using push_result[OF assms(2)] assms(1) by auto

lemma addOrReplace_preserves_schema:
  assumes "list_all schema items" and "addOrReplace schema p items = (r, items')"
  shows "list_all schema items'"
proof -
  from addOrReplace_result[OF assms(2)] consider
      (same) "items' = items"
    | (pushed) "items' = items @ [p]" "schema p"
    | (replaced) k where "schema p" "k < length items"
        "items' = items[k := getHighestPermission (items ! k) p]"
    by blast
  then show ?thesis
  proof cases
    case same
    then show ?thesis using assms(1) by simp
  next
    case pushed
    then show ?thesis using assms(1) by simp
  next
    case replaced
    have "schema (items ! k)" using assms(1) replaced(2) by (simp add: list_all_length)
    then have "schema (getHighestPermission (items ! k) p)"
      using replaced(1) by (simp add: getHighestPermission_def)
    moreover have "set items' \<subseteq> insert (getHighestPermission (items ! k) p) (set items)"
      using replaced(3) by (simp add: set_update_subset_insert)
    ultimately show ?thesis using assms(1) by (auto simp: list_all_iff)
  qed
qed

lemma push_all_preserves_schema:
  "list_all schema items \<Longrightarrow> push_all schema ds items = Inr items' \<Longrightarrow> list_all schema items'"
proof (induction ds arbitrary: items)
  case Nil
  then show ?case by simp
next
  case (Cons d ds)
  from Cons.prems(2) obtain u s where p: "push schema (Dto d) items = (Inr u, s)"
    and r: "push_all schema ds s = Inr items'"
    by (auto split: prod.splits sum.splits)
  have "list_all schema s" using push_preserves_schema[OF Cons.prems(1) p] .
  then show ?case using Cons.IH r by blast
qed

lemma addOrReplace_all_preserves_schema:
  "list_all schema items \<Longrightarrow> addOrReplace_all schema ps items = Inr items'
     \<Longrightarrow> list_all schema items'"
proof (induction ps arbitrary: items)
  case Nil
  then show ?case by simp
next
  case (Cons p ps)
  from Cons.prems(2) obtain u s where a: "addOrReplace schema p items = (Inr u, s)"
    and r: "addOrReplace_all schema ps s = Inr items'"
    by (auto split: prod.splits sum.splits)
  have "list_all schema s" using addOrReplace_preserves_schema[OF Cons.prems(1) a] .
  then show ?case using Cons.IH r by blast
qed

lemma PermissionsCollection_schema:
  assumes "PermissionsCollection schema dtos ov = Inr items"
  shows "list_all schema items"
proof -
  from assms obtain items0 where "push_all schema dtos [] = Inr items0" and "items = items0"
    by (auto simp: PermissionsCollection_def split: if_splits sum.splits)
  then show ?thesis using push_all_preserves_schema[of schema "[]" dtos items0] by simp
qed

lemma reachable_schema:
  assumes "reachable schema items"
  shows "list_all schema items"
  using assms
proof (induction rule: reachable.induct)
  case (by_constructor dtos ov items)
  then show ?case by (rule PermissionsCollection_schema)
next
  case (by_push items arg r items')
  then show ?case using push_preserves_schema by blast
next
  case (by_addOrReplace items p r items')
  then show ?case using addOrReplace_preserves_schema by blast
next
  case (by_unionByAcoAndType set1 set2 ov set3)
  from by_unionByAcoAndType.hyps(3) obtain s where
    s: "PermissionsCollection schema (map toDto set1) (Some False) = Inr s"
    and f: "addOrReplace_all schema set2 s = Inr set3"
    by (auto simp: unionByAcoAndType_def split: if_splits sum.splits)
  show ?case
    using addOrReplace_all_preserves_schema[OF PermissionsCollection_schema[OF s] f] .
qed

lemma uniqueIdInv_set_ids:
  assumes "uniqueIdInv items" and "list_all schema items"
    and "\<forall>p. schema p \<longrightarrow> perm_id p \<noteq> Some []"
  shows "distinct (filter (\<lambda>i. i \<noteq> None) (map perm_id items))"
proof -
  have "\<forall>i\<in>set (map perm_id items). truthy i \<longleftrightarrow> i \<noteq> None"
  proof
    fix i assume "i \<in> set (map perm_id items)"
    then obtain p where "p \<in> set items" "i = perm_id p" by auto
    then have "i \<noteq> Some []" using assms(2,3) by (auto simp: list_all_iff)
    then show "truthy i \<longleftrightarrow> i \<noteq> None" by (cases i) (simp_all add: truthy_def)
  qed
  then have "filter truthy (map perm_id items) = filter (\<lambda>i. i \<noteq> None) (map perm_id items)"
    by (intro filter_cong refl) blast
  then show ?thesis using assms(1) by (simp add: uniqueIdInv_def)
qed


text \<open>
  Claim C1. Every collection obtained from the constructor or from
  \<^verbatim>\<open>unionByAcoAndType\<close>, and every state into which \<^verbatim>\<open>push\<close> and \<^verbatim>\<open>addOrReplace\<close>
  bring such a collection (the replacing branch of \<^verbatim>\<open>addOrReplace\<close> included), satisfies
  the three structural invariants: one ACO for all members, at most one member for an ARO,
  and pairwise distinct identifiers among the members that carry one. The code takes an
  empty identifier for none; when the schema accepts no empty identifier, the identifiers
  that are set are pairwise distinct.
\<close>

theorem reachable_collection_invariants:
  assumes "reachable schema items"
  shows "sameAcoInv items \<and> uniqueAroInv items \<and> uniqueIdInv items \<and>
    ((\<forall>p. schema p \<longrightarrow> perm_id p \<noteq> Some []) \<longrightarrow>
       distinct (filter (\<lambda>i. i \<noteq> None) (map perm_id items)))"
proof -
  from assms have "collectionInv items"
  proof (induction rule: reachable.induct)
    case (by_constructor dtos ov items)
    then show ?case by (rule PermissionsCollection_inv)
  next
    case (by_push items arg r items')
    then show ?case using push_preserves_inv by blast
  next
    case (by_addOrReplace items p r items')
    then show ?case using addOrReplace_preserves_inv by blast
  next
    case (by_unionByAcoAndType set1 set2 ov set3)
    then show ?case using unionByAcoAndType_inv by blast
  qed
  then have i: "sameAcoInv items" "uniqueAroInv items" "uniqueIdInv items"
    by (simp_all add: collectionInv_def)
  have "(\<forall>p. schema p \<longrightarrow> perm_id p \<noteq> Some []) \<longrightarrow>
       distinct (filter (\<lambda>i. i \<noteq> None) (map perm_id items))"
    using uniqueIdInv_set_ids[OF i(3) reachable_schema[OF assms]] by blast
  then show ?thesis using i by blast
qed

theorem reachable_collection_invariants_witness:
  "reachable example_schema [r1_u1_owner_p9, r1_u2_owner] \<and>
   sameAcoInv [r1_u1_owner_p9, r1_u2_owner] \<and>
   uniqueAroInv [r1_u1_owner_p9, r1_u2_owner] \<and>
   uniqueIdInv [r1_u1_owner_p9, r1_u2_owner] \<and>
   distinct (filter (\<lambda>i. i \<noteq> None) (map perm_id [r1_u1_owner_p9, r1_u2_owner]))"
proof -
  have c: "PermissionsCollection example_schema [r1_u1_read, r1_u2_owner] None =
      Inr [r1_u1_read, r1_u2_owner]"
    by (simp add: PermissionsCollection_def push_eval example_schema_def isOwner_def)
  have a: "addOrReplace example_schema r1_u1_owner_p9 [r1_u1_read, r1_u2_owner] =
      (Inr (), [r1_u1_owner_p9, r1_u2_owner])"
    by (simp add: addOrReplace_def push_eval example_schema_def recover_def
        getHighestPermission_def)
  have r: "reachable example_schema [r1_u1_owner_p9, r1_u2_owner]"
    using by_addOrReplace[OF by_constructor[OF c] a] .
  have s: "\<forall>p. example_schema p \<longrightarrow> perm_id p \<noteq> Some []"
    by (simp add: example_schema_def)
  show ?thesis using r s reachable_collection_invariants[OF r] by blast
qed

section \<open>addOrReplace on a conflicting record\<close>

lemma getHighestPermission_cases:
  "getHighestPermission a b = a \<or> getHighestPermission a b = b"
  by (simp add: getHighestPermission_def)

lemma getHighestPermission_level:
  "getHighestPermission a b =
     (if level_rank (perm_type b) \<le> level_rank (perm_type a) then a else b)"
  by (simp add: getHighestPermission_def)

lemma isAroMatching_sym: "isAroMatching a b \<Longrightarrow> isAroMatching b a"
  by (simp add: isAroMatching_def)

lemma isAroMatching_trans: "isAroMatching a b \<Longrightarrow> isAroMatching b c \<Longrightarrow> isAroMatching a c"
  by (simp add: isAroMatching_def)

lemma replace_one_entry:
  assumes inv: "collectionInv items" and k: "k < length items"
    and m: "isAcoAndAroMatching (items ! k) p"
    and c: "idClash (items ! k) p \<or> (\<forall>e\<in>set items. \<not> idClash e p)"
  shows "\<exists>!i. i < length items \<and>
           isAroMatching (items[k := getHighestPermission (items ! k) p] ! i) p"
proof -
  let ?items' = "items[k := getHighestPermission (items ! k) p]"
  have "collectionInv ?items'" using replace_preserves_inv[OF inv k m c] .
  then have u: "\<forall>i<length items. \<forall>j<length items. i \<noteq> j \<longrightarrow>
      \<not> isAroMatching (?items' ! i) (?items' ! j)"
    by (simp add: collectionInv_def uniqueAroInv_nth)
  have mk: "isAroMatching (items ! k) p" using m by (simp add: isAcoAndAroMatching_def)
  have pp: "isAroMatching p p" by (simp add: isAroMatching_def)
  have atk: "isAroMatching (?items' ! k) p"
    using getHighestPermission_cases[of "items ! k" p] mk pp k by auto
  show ?thesis
  proof (rule ex1I[of _ k])
    show "k < length items \<and> isAroMatching (?items' ! k) p" using k atk by simp
  next
    fix i assume i: "i < length items \<and> isAroMatching (?items' ! i) p"
    then have "isAroMatching (?items' ! i) (?items' ! k)"
      using atk isAroMatching_sym isAroMatching_trans by blast
    then show "i = k" using u i k by blast
  qed
qed

text \<open>
  Claim C3. Let \<^verbatim>\<open>push\<close> of an entity fail on a collection. If it fails with UNIQUE_ID or
  UNIQUE_ARO at a member that matches the entity on ACO and ARO, \<^verbatim>\<open>addOrReplace\<close> puts
  the higher-levelled of the two at the position of that member (the member itself when
  its level is higher or equal), and exactly one member is about that ARO afterwards. If
  the member at the position of the error differs in ACO or ARO, the same error is thrown
  again, as is every SAME_ACO error; the members are then unchanged.
\<close>

theorem addOrReplace_on_conflict:
  assumes inv: "collectionInv items"
    and fail: "push schema (Entity p) items = (Inl err, items0)"
  shows
   "(\<forall>k r. err = EntityCollectionError k r \<and> (r = RULE_UNIQUE_ID \<or> r = RULE_UNIQUE_ARO) \<and>
        isAcoAndAroMatching (items ! k) p \<longrightarrow>
        k < length items \<and>
        addOrReplace schema p items =
          (Inr (), items[k := (if level_rank (perm_type p) \<le> level_rank (perm_type (items ! k))
                               then items ! k else p)]) \<and>
        (\<exists>!i. i < length items \<and> isAroMatching (snd (addOrReplace schema p items) ! i) p)) \<and>
    (\<forall>k r. err = EntityCollectionError k r \<and> (r = RULE_UNIQUE_ID \<or> r = RULE_UNIQUE_ARO) \<and>
        \<not> isAcoAndAroMatching (items ! k) p \<longrightarrow>
        addOrReplace schema p items = (Inl err, items)) \<and>
    (\<forall>k. err = EntityCollectionError k RULE_SAME_ACO \<longrightarrow>
        addOrReplace schema p items = (Inl err, items))"
proof -
  note f = push_failure[OF fail]
  then have s: "items0 = items" by simp
  note ar = addOrReplace_push_failed[OF fail, unfolded s]
  have pos: "\<forall>k r. err = EntityCollectionError k r \<and> (r = RULE_UNIQUE_ID \<or> r = RULE_UNIQUE_ARO)
      \<longrightarrow> k < length items \<and> (idClash (items ! k) p \<or> (\<forall>e\<in>set items. \<not> idClash e p))"
    using f by auto
  have 1: "\<forall>k r. err = EntityCollectionError k r \<and> (r = RULE_UNIQUE_ID \<or> r = RULE_UNIQUE_ARO) \<and>
        isAcoAndAroMatching (items ! k) p \<longrightarrow>
        k < length items \<and>
        addOrReplace schema p items =
          (Inr (), items[k := (if level_rank (perm_type p) \<le> level_rank (perm_type (items ! k))
                               then items ! k else p)]) \<and>
        (\<exists>!i. i < length items \<and> isAroMatching (snd (addOrReplace schema p items) ! i) p)"
  proof (intro allI impI)
    fix k r
    assume a: "err = EntityCollectionError k r \<and> (r = RULE_UNIQUE_ID \<or> r = RULE_UNIQUE_ARO) \<and>
        isAcoAndAroMatching (items ! k) p"
    then have k: "k < length items"
      and c: "idClash (items ! k) p \<or> (\<forall>e\<in>set items. \<not> idClash e p)"
      using pos by blast+
    have e: "addOrReplace schema p items =
        (Inr (), items[k := getHighestPermission (items ! k) p])"
      using ar a k by (auto simp: recover_def)
    have o: "\<exists>!i. i < length items \<and>
        isAroMatching (items[k := getHighestPermission (items ! k) p] ! i) p"
      using replace_one_entry[OF inv k _ c] a by blast
    show "k < length items \<and>
        addOrReplace schema p items =
          (Inr (), items[k := (if level_rank (perm_type p) \<le> level_rank (perm_type (items ! k))
                               then items ! k else p)]) \<and>
        (\<exists>!i. i < length items \<and> isAroMatching (snd (addOrReplace schema p items) ! i) p)"
      using k e o by (simp add: getHighestPermission_level)
  qed
  have 2: "\<forall>k r. err = EntityCollectionError k r \<and> (r = RULE_UNIQUE_ID \<or> r = RULE_UNIQUE_ARO) \<and>
        \<not> isAcoAndAroMatching (items ! k) p \<longrightarrow>
        addOrReplace schema p items = (Inl err, items)"
    using ar pos by (auto simp: recover_def)
  have 3: "\<forall>k. err = EntityCollectionError k RULE_SAME_ACO \<longrightarrow>
        addOrReplace schema p items = (Inl err, items)"
    using ar by (auto simp: recover_def)
  show ?thesis using 1 2 3 by blast
qed


theorem addOrReplace_on_conflict_witness:
  "collectionInv [r1_u1_read, r1_u2_owner] \<and>
   push example_schema (Entity r1_u1_owner_p9) [r1_u1_read, r1_u2_owner] =
     (Inl (EntityCollectionError 0 RULE_UNIQUE_ARO), [r1_u1_read, r1_u2_owner]) \<and>
   addOrReplace example_schema r1_u1_owner_p9 [r1_u1_read, r1_u2_owner] =
     (Inr (), [r1_u1_owner_p9, r1_u2_owner]) \<and>
   (\<exists>!i. i < length [r1_u1_read, r1_u2_owner] \<and>
      isAroMatching
        (snd (addOrReplace example_schema r1_u1_owner_p9 [r1_u1_read, r1_u2_owner]) ! i)
        r1_u1_owner_p9)"
proof -
  have inv: "collectionInv [r1_u1_read, r1_u2_owner]"
    by (simp add: collectionInv_def sameAcoInv_def uniqueAroInv_def uniqueIdInv_def aroKey_def
        isAcoMatching_def truthy_def)
  have fail: "push example_schema (Entity r1_u1_owner_p9) [r1_u1_read, r1_u2_owner] =
     (Inl (EntityCollectionError 0 RULE_UNIQUE_ARO), [r1_u1_read, r1_u2_owner])"
    by (simp add: push_eval example_schema_def)
  have m: "isAcoAndAroMatching ([r1_u1_read, r1_u2_owner] ! 0) r1_u1_owner_p9"
    by (simp add: isAcoAndAroMatching_def isAroMatching_def isAcoMatching_def)
  from addOrReplace_on_conflict[OF inv fail]
  have "\<forall>k r. EntityCollectionError 0 RULE_UNIQUE_ARO = EntityCollectionError k r \<and>
        (r = RULE_UNIQUE_ID \<or> r = RULE_UNIQUE_ARO) \<and>
        isAcoAndAroMatching ([r1_u1_read, r1_u2_owner] ! k) r1_u1_owner_p9 \<longrightarrow>
        k < length [r1_u1_read, r1_u2_owner] \<and>
        addOrReplace example_schema r1_u1_owner_p9 [r1_u1_read, r1_u2_owner] =
          (Inr (), [r1_u1_read, r1_u2_owner]
             [k := (if level_rank (perm_type r1_u1_owner_p9)
                        \<le> level_rank (perm_type ([r1_u1_read, r1_u2_owner] ! k))
                    then [r1_u1_read, r1_u2_owner] ! k else r1_u1_owner_p9)]) \<and>
        (\<exists>!i. i < length [r1_u1_read, r1_u2_owner] \<and>
           isAroMatching
             (snd (addOrReplace example_schema r1_u1_owner_p9 [r1_u1_read, r1_u2_owner]) ! i)
             r1_u1_owner_p9)"
    by (rule conjunct1)
  then have "addOrReplace example_schema r1_u1_owner_p9 [r1_u1_read, r1_u2_owner] =
          (Inr (), [r1_u1_read, r1_u2_owner]
             [0 := (if level_rank (perm_type r1_u1_owner_p9)
                        \<le> level_rank (perm_type ([r1_u1_read, r1_u2_owner] ! 0))
                    then [r1_u1_read, r1_u2_owner] ! 0 else r1_u1_owner_p9)]) \<and>
        (\<exists>!i. i < length [r1_u1_read, r1_u2_owner] \<and>
           isAroMatching
             (snd (addOrReplace example_schema r1_u1_owner_p9 [r1_u1_read, r1_u2_owner]) ! i)
             r1_u1_owner_p9)"
    using m by blast
  note c = this
  from c have A: "addOrReplace example_schema r1_u1_owner_p9 [r1_u1_read, r1_u2_owner] =
          (Inr (), [r1_u1_owner_p9, r1_u2_owner])"
    by simp
  from c have B: "\<exists>!i. i < length [r1_u1_read, r1_u2_owner] \<and>
           isAroMatching
             (snd (addOrReplace example_schema r1_u1_owner_p9 [r1_u1_read, r1_u2_owner]) ! i)
             r1_u1_owner_p9"
    by (rule conjunct2)
  show ?thesis using inv fail A B by blast
qed

section \<open>The constructor\<close>

lemma push_ok:
  assumes "push schema arg items = (Inr u, items')"
  shows "\<exists>p. (arg = Dto p \<or> arg = Entity p) \<and> items' = items @ [p] \<and> schema p \<and>
        (items = [] \<or> isAcoMatching p (items ! 0)) \<and>
        (\<forall>e\<in>set items. \<not> idClash e p) \<and> (\<forall>e\<in>set items. \<not> isAroMatching p e)"
proof -
  from assms obtain p where p: "arg = Dto p \<or> arg = Entity p"
    by (cases arg) (auto simp: push_def push_dto_def)
  have sp: "schema p"
  proof (rule ccontr)
    assume "\<not> schema p"
    then show False using push_invalid[of schema p arg items] p assms by simp
  qed
  note pv = push_valid[where schema=schema and p=p and arg=arg and items=items, OF sp p]
  from pv assms have a: "assertSameAco items p = Inr ()" "assertUniqueId items p = Inr ()"
    "assertUniqueAro items p = Inr ()" and i: "items' = items @ [p]"
    by (auto split: sum.splits)
  have "\<forall>e\<in>set items. \<not> idClash e p"
    using a(2) idClash_truthy unfolding assertUniqueId_Inr by blast
  then show ?thesis using a(1,3) i p sp
    unfolding assertSameAco_Inr assertUniqueAro_Inr by blast
qed

lemma push_error_rule:
  assumes "push schema arg items = (Inl (EntityCollectionError k r), items')"
  shows "r \<noteq> RULE_ONE_OWNER"
proof (cases arg)
  case NotAnObject
  then show ?thesis using assms by (simp add: push_def push_dto_def)
next
  case (Dto p)
  show ?thesis
  proof (cases "schema p")
    case True
    then show ?thesis
      using assms Dto push_valid[of schema p arg items]
      by (auto simp: assertSameAco_Inl assertUniqueId_Inl assertUniqueAro_Inl split: sum.splits)
  next
    case False
    then show ?thesis using assms Dto push_invalid[of schema p arg items] by simp
  qed
next
  case (Entity p)
  show ?thesis
  proof (cases "schema p")
    case True
    then show ?thesis
      using assms Entity push_valid[of schema p arg items]
      by (auto simp: assertSameAco_Inl assertUniqueId_Inl assertUniqueAro_Inl split: sum.splits)
  next
    case False
    then show ?thesis using assms Entity push_invalid[of schema p arg items] by simp
  qed
qed

lemma collectionInv_prefix: "collectionInv (xs @ ys) \<Longrightarrow> collectionInv xs"
  by (auto simp: collectionInv_def sameAcoInv_def uniqueAroInv_def uniqueIdInv_def)

lemma push_all_success:
  "collectionInv (items @ ds) \<Longrightarrow> list_all schema ds \<Longrightarrow>
     push_all schema ds items = Inr (items @ ds)"
proof (induction ds arbitrary: items)
  case Nil
  then show ?case by simp
next
  case (Cons d ds)
  have inv: "collectionInv ((items @ [d]) @ ds)" using Cons.prems(1) by simp
  then have "collectionInv (items @ [d])" by (rule collectionInv_prefix)
  then have c: "items = [] \<or> isAcoMatching d (items ! 0)"
    "\<forall>e\<in>set items. \<not> idClash e d" "\<forall>e\<in>set items. \<not> isAroMatching d e"
    unfolding collectionInv_snoc_iff by blast+
  have sd: "schema d" and sds: "list_all schema ds" using Cons.prems(2) by simp_all
  have "push schema (Dto d) items = (Inr (), items @ [d])"
    using push_success[where schema=schema and p=d and arg="Dto d" and items=items] sd c
    by blast
  then show ?case using Cons.IH[OF inv sds] by simp
qed

lemma push_all_result:
  "push_all schema ds items = Inr items' \<Longrightarrow> items' = items @ ds"
proof (induction ds arbitrary: items)
  case Nil
  then show ?case by simp
next
  case (Cons d ds)
  from Cons.prems obtain u s where p: "push schema (Dto d) items = (Inr u, s)"
    and r: "push_all schema ds s = Inr items'"
    by (auto split: prod.splits sum.splits)
  from push_ok[OF p] have "s = items @ [d]" by auto
  then show ?case using Cons.IH[OF r] by simp
qed

lemma push_all_error_rule:
  "push_all schema ds items = Inl (EntityCollectionError k r) \<Longrightarrow> r \<noteq> RULE_ONE_OWNER"
proof (induction ds arbitrary: items)
  case Nil
  then show ?case by simp
next
  case (Cons d ds)
  then show ?case
    by (auto split: prod.splits sum.splits dest: push_error_rule)
qed

lemma assertAtLeastOneOwner_eq:
  "assertAtLeastOneOwner items =
     (if list_ex isOwner items then Inr () else Inl (EntityCollectionError 0 RULE_ONE_OWNER))"
  by (induction items) auto

section \<open>Constructing a collection\<close>

text \<open>
  Claim C5, as stated, fails: a list of valid records with an owner and pairwise distinct
  AROs is refused when two records are about different ACOs (SAME_ACO) or carry the same
  identifier (UNIQUE_ID).
\<close>

theorem constructor_distinct_aro_counterexample:
  "list_all example_schema [r1_u1_owner_p9, f1_u2_read_new] \<and>
   list_ex isOwner [r1_u1_owner_p9, f1_u2_read_new] \<and>
   uniqueAroInv [r1_u1_owner_p9, f1_u2_read_new] \<and>
   PermissionsCollection example_schema [r1_u1_owner_p9, f1_u2_read_new] None =
     Inl (EntityCollectionError 0 RULE_SAME_ACO) \<and>
   list_all example_schema [r1_u1_owner_p9, r1_u2_read_p9] \<and>
   list_ex isOwner [r1_u1_owner_p9, r1_u2_read_p9] \<and>
   uniqueAroInv [r1_u1_owner_p9, r1_u2_read_p9] \<and>
   PermissionsCollection example_schema [r1_u1_owner_p9, r1_u2_read_p9] None =
     Inl (EntityCollectionError 0 RULE_UNIQUE_ID)"
  by (simp add: constructor_eval example_schema_def uniqueAroInv_def aroKey_def)

text \<open>
  Claim C5, amended. For every non-empty list of records that pass the schema, with at
  least one Owner-level record, pairwise distinct (ARO type, ARO id) pairs, one ACO for all
  records and pairwise distinct identifiers (among the records that carry one),
  constructing a collection succeeds, whatever the owner-validation flag, and the members
  are the records in the order of the list.
\<close>

theorem constructor_succeeds_in_order:
  assumes "list_all schema dtos" and "dtos \<noteq> []" and "list_ex isOwner dtos"
    and "uniqueAroInv dtos" and "sameAcoInv dtos" and "uniqueIdInv dtos"
  shows "PermissionsCollection schema dtos ov = Inr dtos"
proof -
  have "collectionInv ([] @ dtos)" using assms(4-6) by (simp add: collectionInv_def)
  then have "push_all schema dtos [] = Inr ([] @ dtos)"
    using assms(1) by (rule push_all_success)
  then show ?thesis
    using assms(1,3) by (simp add: PermissionsCollection_def assertAtLeastOneOwner_eq)
qed

theorem constructor_succeeds_in_order_witness:
  "list_all example_schema [r1_u1_read, r1_u2_owner] \<and> [r1_u1_read, r1_u2_owner] \<noteq> [] \<and>
   list_ex isOwner [r1_u1_read, r1_u2_owner] \<and> uniqueAroInv [r1_u1_read, r1_u2_owner] \<and>
   sameAcoInv [r1_u1_read, r1_u2_owner] \<and> uniqueIdInv [r1_u1_read, r1_u2_owner] \<and>
   PermissionsCollection example_schema [r1_u1_read, r1_u2_owner] None =
     Inr [r1_u1_read, r1_u2_owner]"
proof -
  have h: "list_all example_schema [r1_u1_read, r1_u2_owner]"
    "[r1_u1_read, r1_u2_owner] \<noteq> []"
    "list_ex isOwner [r1_u1_read, r1_u2_owner]" "uniqueAroInv [r1_u1_read, r1_u2_owner]"
    "sameAcoInv [r1_u1_read, r1_u2_owner]" "uniqueIdInv [r1_u1_read, r1_u2_owner]"
    by (simp_all add: example_schema_def isOwner_def inv_eval)
  show ?thesis using h constructor_succeeds_in_order[OF h, of None] by blast
qed

text \<open>
  Claim C6, as stated, fails: a list without owner that breaks a rule of \<^verbatim>\<open>push\<close> is
  refused with the error of that rule, here UNIQUE_ARO, not with ONE_OWNER.
\<close>

theorem constructor_no_owner_counterexample:
  "\<not> list_ex isOwner [r1_u1_read_new, r1_u1_read_new] \<and>
   list_all example_schema [r1_u1_read_new, r1_u1_read_new] \<and>
   PermissionsCollection example_schema [r1_u1_read_new, r1_u1_read_new] None =
     Inl (EntityCollectionError 0 RULE_UNIQUE_ARO)"
  by (simp add: constructor_eval example_schema_def)

text \<open>
  Claim C6, amended. For every list of records without an Owner-level record, constructing
  a collection with owner validation enabled or omitted fails. The failure is ONE_OWNER
  at position 0 exactly when every record passes the schema and the records obey the rules
  of \<^verbatim>\<open>push\<close> (one ACO, distinct AROs, distinct identifiers); otherwise an earlier
  validation throws.
\<close>

theorem constructor_without_owner_fails:
  assumes "\<not> list_ex isOwner dtos" and "ov = None \<or> ov = Some True"
  shows "(\<exists>e. PermissionsCollection schema dtos ov = Inl e) \<and>
    (PermissionsCollection schema dtos ov = Inl (EntityCollectionError 0 RULE_ONE_OWNER)
       \<longleftrightarrow> list_all schema dtos \<and> collectionInv dtos)"
proof (cases "list_all schema dtos")
  case False
  then show ?thesis by (simp add: PermissionsCollection_def)
next
  case True
  show ?thesis
  proof (cases "push_all schema dtos []")
    case (Inl e)
    then have r: "PermissionsCollection schema dtos ov = Inl e"
      using True by (simp add: PermissionsCollection_def)
    have ne: "e \<noteq> EntityCollectionError 0 RULE_ONE_OWNER"
      using push_all_error_rule[of schema dtos "[]" 0 RULE_ONE_OWNER] Inl by auto
    have "\<not> collectionInv dtos"
    proof
      assume "collectionInv dtos"
      then have "collectionInv ([] @ dtos)" by simp
      then have "push_all schema dtos [] = Inr ([] @ dtos)" using True by (rule push_all_success)
      then show False using Inl by simp
    qed
    then show ?thesis using r ne by simp
  next
    case (Inr items)
    then have i: "items = dtos" using push_all_result by fastforce
    have inv: "collectionInv dtos"
      using push_all_preserves_inv[OF collectionInv_Nil Inr] i by simp
    have "PermissionsCollection schema dtos ov = Inl (EntityCollectionError 0 RULE_ONE_OWNER)"
      using True Inr i assms by (auto simp: PermissionsCollection_def assertAtLeastOneOwner_eq)
    then show ?thesis using True inv by simp
  qed
qed

theorem constructor_without_owner_fails_witness:
  "\<not> list_ex isOwner [r1_u1_read] \<and> list_all example_schema [r1_u1_read] \<and>
   collectionInv [r1_u1_read] \<and>
   PermissionsCollection example_schema [r1_u1_read] None =
     Inl (EntityCollectionError 0 RULE_ONE_OWNER)"
proof -
  have h: "\<not> list_ex isOwner [r1_u1_read]" by (simp add: isOwner_def)
  have v: "list_all example_schema [r1_u1_read]" "collectionInv [r1_u1_read]"
    by (simp_all add: example_schema_def inv_eval)
  show ?thesis
    using h v constructor_without_owner_fails[OF h, of None example_schema] by blast
qed

section \<open>Folding permissions into a collection\<close>

lemma mergeInto_cases: "mergeInto b e = e \<or> (mergeInto b e = b \<and> isAroMatching e b)"
  by (simp add: mergeInto_def getHighestPermission_def)

lemma mergeInto_aroKey: "aroKey (mergeInto b e) = aroKey e"
  using mergeInto_cases[of b e] by (auto simp: isAroMatching_aroKey)

lemma mergeInto_level: "level_rank (perm_type e) \<le> level_rank (perm_type (mergeInto b e))"
  by (simp add: mergeInto_def getHighestPermission_def)

lemma mergeInto_level_b:
  "isAroMatching e b \<Longrightarrow> level_rank (perm_type b) \<le> level_rank (perm_type (mergeInto b e))"
  by (simp add: mergeInto_def getHighestPermission_def)

lemma mergeInto_dominated:
  "(isAroMatching e b \<Longrightarrow> level_rank (perm_type b) \<le> level_rank (perm_type e))
     \<Longrightarrow> mergeInto b e = e"
  by (auto simp: mergeInto_def getHighestPermission_def)

lemma mergeAll_Nil: "mergeAll [] e = e"
  by (simp add: mergeAll_def)

lemma mergeAll_Cons: "mergeAll (b # bs) e = mergeAll bs (mergeInto b e)"
  by (simp add: mergeAll_def)

lemma mergeAll_aroKey: "aroKey (mergeAll bs e) = aroKey e"
  by (induction bs arbitrary: e) (simp_all add: mergeAll_Nil mergeAll_Cons mergeInto_aroKey)

lemma mergeAll_mem: "mergeAll bs e = e \<or> mergeAll bs e \<in> set bs"
proof (induction bs arbitrary: e)
  case Nil
  show ?case by (simp add: mergeAll_Nil)
next
  case (Cons b bs)
  show ?case
    using Cons.IH[of "mergeInto b e"] mergeInto_cases[of b e]
    by (auto simp: mergeAll_Cons)
qed

lemma mergeAll_level: "level_rank (perm_type e) \<le> level_rank (perm_type (mergeAll bs e))"
proof (induction bs arbitrary: e)
  case Nil
  show ?case by (simp add: mergeAll_Nil)
next
  case (Cons b bs)
  show ?case
    using Cons.IH[of "mergeInto b e"] mergeInto_level[of e b]
    by (simp add: mergeAll_Cons)
qed

lemma mergeAll_level_b:
  "b \<in> set bs \<Longrightarrow> isAroMatching e b \<Longrightarrow>
     level_rank (perm_type b) \<le> level_rank (perm_type (mergeAll bs e))"
proof (induction bs arbitrary: e)
  case Nil
  then show ?case by simp
next
  case (Cons c bs)
  show ?case
  proof (cases "b = c")
    case True
    have "level_rank (perm_type b) \<le> level_rank (perm_type (mergeInto c e))"
      using True Cons.prems(2) mergeInto_level_b by simp
    also have "\<dots> \<le> level_rank (perm_type (mergeAll bs (mergeInto c e)))"
      by (rule mergeAll_level)
    finally show ?thesis by (simp add: mergeAll_Cons)
  next
    case False
    then have "b \<in> set bs" using Cons.prems(1) by simp
    moreover have "isAroMatching (mergeInto c e) b"
      using Cons.prems(2) by (simp add: isAroMatching_aroKey mergeInto_aroKey)
    ultimately show ?thesis using Cons.IH by (simp add: mergeAll_Cons)
  qed
qed

lemma mergeAll_dominated:
  "(\<And>b. b \<in> set bs \<Longrightarrow> isAroMatching e b \<Longrightarrow>
        level_rank (perm_type b) \<le> level_rank (perm_type e))
     \<Longrightarrow> mergeAll bs e = e"
proof (induction bs)
  case Nil
  show ?case by (simp add: mergeAll_Nil)
next
  case (Cons c bs)
  have "mergeInto c e = e" using Cons.prems by (intro mergeInto_dominated) simp
  then show ?case using Cons by (simp add: mergeAll_Cons)
qed

lemma mergeAll_idem: "mergeAll bs (mergeAll bs e) = mergeAll bs e"
proof (rule mergeAll_dominated)
  fix b assume "b \<in> set bs" and "isAroMatching (mergeAll bs e) b"
  then have "isAroMatching e b" by (simp add: isAroMatching_aroKey mergeAll_aroKey)
  with \<open>b \<in> set bs\<close> show "level_rank (perm_type b) \<le> level_rank (perm_type (mergeAll bs e))"
    by (rule mergeAll_level_b)
qed

section \<open>addOrReplace of a permission whose ARO is in the collection\<close>

lemma uniqueIdInv_Cons_noclash:
  assumes "uniqueIdInv (b # bs)" and "b' \<in> set bs"
  shows "\<not> idClash b b'"
proof
  assume c: "idClash b b'"
  then have t: "truthy (perm_id b)" and e: "perm_id b = perm_id b'"
    unfolding idClash_def by blast+
  have "perm_id b' \<in> set (map perm_id bs)" using assms(2) by simp
  then have "perm_id b \<in> set (filter truthy (map perm_id bs))" using t e by simp
  then show False using assms(1) t by (simp add: uniqueIdInv_def)
qed

lemma uniqueIdInv_clash_eq:
  assumes "uniqueIdInv xs" and "x \<in> set xs" and "y \<in> set xs" and "idClash x y"
  shows "x = y"
proof -
  from assms(2,3) obtain i j where ij: "i < length xs" "xs ! i = x" "j < length xs" "xs ! j = y"
    by (auto simp: in_set_conv_nth)
  have "i = j"
  proof (rule ccontr)
    assume "i \<noteq> j"
    then have "\<not> idClash (xs ! i) (xs ! j)" using assms(1) ij unfolding uniqueIdInv_nth by blast
    then show False using assms(4) ij by simp
  qed
  then show ?thesis using ij by simp
qed

lemma uniqueAroInv_match_eq:
  assumes "uniqueAroInv xs" and "x \<in> set xs" and "y \<in> set xs" and "isAroMatching x y"
  shows "x = y"
proof -
  from assms(2,3) obtain i j where ij: "i < length xs" "xs ! i = x" "j < length xs" "xs ! j = y"
    by (auto simp: in_set_conv_nth)
  have "i = j"
  proof (rule ccontr)
    assume "i \<noteq> j"
    then have "\<not> isAroMatching (xs ! i) (xs ! j)"
      using assms(1) ij unfolding uniqueAroInv_nth by blast
    then show False using assms(4) ij by simp
  qed
  then show ?thesis using ij by simp
qed

lemma replace_is_map_mergeInto:
  assumes ua: "uniqueAroInv items" and k: "k < length items"
    and m: "isAroMatching (items ! k) b"
  shows "items[k := getHighestPermission (items ! k) b] = map (mergeInto b) items"
proof (rule nth_equalityI)
  show "length (items[k := getHighestPermission (items ! k) b]) = length (map (mergeInto b) items)"
    by simp
next
  fix i assume "i < length (items[k := getHighestPermission (items ! k) b])"
  then have i: "i < length items" by simp
  show "items[k := getHighestPermission (items ! k) b] ! i = map (mergeInto b) items ! i"
  proof (cases "i = k")
    case True
    then show ?thesis using k m by (simp add: mergeInto_def)
  next
    case False
    have "\<not> isAroMatching (items ! i) b"
    proof
      assume "isAroMatching (items ! i) b"
      then have "isAroMatching (items ! i) (items ! k)"
        using m by (simp add: isAroMatching_def)
      then show False using ua i k False unfolding uniqueAroInv_nth by blast
    qed
    then show ?thesis using False i by (simp add: mergeInto_def)
  qed
qed

lemma addOrReplace_merge:
  assumes inv: "collectionInv items" and sp: "schema b"
    and aco: "\<forall>e\<in>set items. isAcoMatching b e"
    and ex: "\<exists>e\<in>set items. isAroMatching e b"
    and ids: "\<forall>e\<in>set items. idClash e b \<longrightarrow> isAroMatching e b"
  shows "addOrReplace schema b items = (Inr (), map (mergeInto b) items)"
proof (cases "push schema (Entity b) items")
  case (Pair o1 s1)
  have ua: "uniqueAroInv items" using inv by (simp add: collectionInv_def)
  show ?thesis
  proof (cases o1)
    case (Inr u)
    then have "\<forall>e\<in>set items. \<not> isAroMatching b e" using push_ok[of schema "Entity b" items u s1] Pair by auto
    then show ?thesis using ex isAroMatching_sym by blast
  next
    case (Inl err)
    then have pf: "push schema (Entity b) items = (Inl err, s1)" using Pair by simp
    note f = push_failure[OF pf]
    then have s1: "s1 = items" by simp
    note ar = addOrReplace_push_failed[OF pf, unfolded s1]
    from ex have ne: "items \<noteq> []" by auto
    then have "items ! 0 \<in> set items" by simp
    then have a0: "isAcoMatching b (items ! 0)" using aco by blast
    from f sp ne a0 obtain k r where kr: "err = EntityCollectionError k r"
        "r = RULE_UNIQUE_ID \<or> r = RULE_UNIQUE_ARO" "k < length items"
        "idClash (items ! k) b \<or> isAroMatching b (items ! k)"
      by auto
    have mem: "items ! k \<in> set items" using kr(3) by simp
    have m: "isAroMatching (items ! k) b"
      using kr(4) ids mem isAroMatching_sym by blast
    have "isAcoMatching (items ! k) b" using aco mem isAcoMatching_sym by blast
    then have mm: "isAcoAndAroMatching (items ! k) b" using m by (simp add: isAcoAndAroMatching_def)
    have "addOrReplace schema b items =
        (Inr (), items[k := getHighestPermission (items ! k) b])"
      using ar kr(1-3) mm by (auto simp: recover_def)
    then show ?thesis using replace_is_map_mergeInto[OF ua kr(3) m] by simp
  qed
qed

lemma addOrReplace_all_merge:
  assumes "collectionInv items" and "list_all schema bs" and "uniqueIdInv bs"
    and "\<forall>b\<in>set bs. \<forall>e\<in>set items. isAcoMatching b e"
    and "\<forall>b\<in>set bs. \<exists>e\<in>set items. isAroMatching e b"
    and "\<forall>b\<in>set bs. \<forall>e\<in>set items. idClash e b \<longrightarrow> isAroMatching e b"
  shows "addOrReplace_all schema bs items = Inr (map (mergeAll bs) items)"
  using assms
proof (induction bs arbitrary: items)
  case Nil
  show ?case by (simp add: mergeAll_Nil cong: map_cong)
next
  case (Cons b bs)
  let ?items1 = "map (mergeInto b) items"
  have step: "addOrReplace schema b items = (Inr (), ?items1)"
    using Cons.prems by (intro addOrReplace_merge) simp_all
  have inv1: "collectionInv ?items1"
    using addOrReplace_preserves_inv[OF Cons.prems(1) step] .
  have sbs: "list_all schema bs" using Cons.prems(2) by simp
  have ubs: "uniqueIdInv bs" using Cons.prems(3) by (auto simp: uniqueIdInv_def split: if_splits)
  from Cons.prems(5) obtain e0 where e0: "e0 \<in> set items" by auto
  have aco1: "\<forall>b'\<in>set bs. \<forall>e\<in>set ?items1. isAcoMatching b' e"
  proof (intro ballI)
    fix b' e assume b': "b' \<in> set bs" and "e \<in> set ?items1"
    then obtain e' where e': "e' \<in> set items" "e = mergeInto b e'" by auto
    have "isAcoMatching b' e'" "isAcoMatching b' e0" "isAcoMatching b e0"
      using Cons.prems(4) b' e'(1) e0 by simp_all
    then have "isAcoMatching b' e'" "isAcoMatching b' b" by (simp_all add: isAcoMatching_def)
    then show "isAcoMatching b' e" using e'(2) mergeInto_cases[of b e'] by auto
  qed
  have aro1: "\<forall>b'\<in>set bs. \<exists>e\<in>set ?items1. isAroMatching e b'"
  proof
    fix b' assume "b' \<in> set bs"
    then obtain e where e: "e \<in> set items" "isAroMatching e b'" using Cons.prems(5) by auto
    then have "isAroMatching (mergeInto b e) b'"
      by (simp add: isAroMatching_aroKey mergeInto_aroKey)
    then show "\<exists>e\<in>set ?items1. isAroMatching e b'" using e(1) by auto
  qed
  have ids1: "\<forall>b'\<in>set bs. \<forall>e\<in>set ?items1. idClash e b' \<longrightarrow> isAroMatching e b'"
  proof (intro ballI impI)
    fix b' e assume b': "b' \<in> set bs" and "e \<in> set ?items1" and c: "idClash e b'"
    then obtain e' where e': "e' \<in> set items" "e = mergeInto b e'" by auto
    from mergeInto_cases[of b e'] show "isAroMatching e b'"
    proof
      assume "mergeInto b e' = e'"
      then show ?thesis using Cons.prems(6) b' e' c by simp
    next
      assume "mergeInto b e' = b \<and> isAroMatching e' b"
      then have "idClash b b'" using c e'(2) by simp
      then show ?thesis using uniqueIdInv_Cons_noclash[OF Cons.prems(3) b'] by simp
    qed
  qed
  have "addOrReplace_all schema bs ?items1 = Inr (map (mergeAll bs) ?items1)"
    using Cons.IH[OF inv1 sbs ubs aco1 aro1 ids1] .
  then show ?case using step by (simp add: mergeAll_Cons comp_def)
qed

section \<open>unionByAcoAndType with the AROs of the second set in the first\<close>

lemma toDto_map: "map toDto xs = xs"
  by (induction xs) (simp_all add: toDto_def)

lemma PermissionsCollection_unchecked:
  assumes "collectionInv xs" and "list_all schema xs"
  shows "PermissionsCollection schema xs (Some False) = Inr xs"
proof -
  have "collectionInv ([] @ xs)" using assms(1) by simp
  then have "push_all schema xs [] = Inr ([] @ xs)" using assms(2) by (rule push_all_success)
  then show ?thesis using assms(2) by (simp add: PermissionsCollection_def)
qed

lemma isOwner_level:
  "isOwner p \<Longrightarrow> level_rank (perm_type p) \<le> level_rank (perm_type q) \<Longrightarrow> isOwner q"
  by (cases "perm_type q") (simp_all add: isOwner_def)

lemma unionByAcoAndType_eq:
  assumes "PermissionsCollection schema (map toDto set1) (Some False) = Inr set3"
    and "addOrReplace_all schema set2 set3 = Inr set3'"
    and "ov = Some False \<or> list_ex isOwner set3'"
  shows "unionByAcoAndType schema set1 set2 ov = Inr set3'"
  using assms by (auto simp: unionByAcoAndType_def assertAtLeastOneOwner_eq)

lemma union_subset_main:
  assumes A: "collectionInv A" "list_all schema A"
    and B: "collectionInv B" "list_all schema B"
    and aco: "\<forall>b\<in>set B. \<forall>a\<in>set A. isAcoMatching b a"
    and sub: "\<forall>b\<in>set B. \<exists>a\<in>set A. isAroMatching a b"
    and ids: "\<forall>b\<in>set B. \<forall>a\<in>set A. idClash a b \<longrightarrow> isAroMatching a b"
    and own: "ov = Some False \<or> list_ex isOwner (A @ B)"
  defines "C \<equiv> map (mergeAll B) A"
  shows "unionByAcoAndType schema A B ov = Inr C"
    and "\<forall>i<length A. isAroMatching (C ! i) (A ! i) \<and> C ! i \<in> set A \<union> set B \<and>
         (\<forall>p\<in>set A \<union> set B. isAroMatching p (A ! i) \<longrightarrow>
            level_rank (perm_type p) \<le> level_rank (perm_type (C ! i)))"
    and "unionByAcoAndType schema C B ov = Inr C"
proof -
  have uB: "uniqueIdInv B" and uA: "uniqueAroInv A" using A(1) B(1) by (simp_all add: collectionInv_def)
  have c0: "PermissionsCollection schema (map toDto A) (Some False) = Inr A"
    using PermissionsCollection_unchecked[OF A] by (simp add: toDto_map)
  have f: "addOrReplace_all schema B A = Inr C"
    unfolding C_def using A(1) B(2) uB aco sub ids by (rule addOrReplace_all_merge)
  have props: "\<forall>i<length A. isAroMatching (C ! i) (A ! i) \<and> C ! i \<in> set A \<union> set B \<and>
         (\<forall>p\<in>set A \<union> set B. isAroMatching p (A ! i) \<longrightarrow>
            level_rank (perm_type p) \<le> level_rank (perm_type (C ! i)))"
  proof (intro allI impI)
    fix i assume i: "i < length A"
    then have ci: "C ! i = mergeAll B (A ! i)" by (simp add: C_def)
    have mem: "A ! i \<in> set A" using i by simp
    have 1: "isAroMatching (C ! i) (A ! i)"
      by (simp add: ci isAroMatching_aroKey mergeAll_aroKey)
    have 2: "C ! i \<in> set A \<union> set B" using mergeAll_mem[of B "A ! i"] mem ci by auto
    have 3: "\<forall>p\<in>set A \<union> set B. isAroMatching p (A ! i) \<longrightarrow>
            level_rank (perm_type p) \<le> level_rank (perm_type (C ! i))"
    proof (intro ballI impI)
      fix p assume p: "p \<in> set A \<union> set B" and m: "isAroMatching p (A ! i)"
      show "level_rank (perm_type p) \<le> level_rank (perm_type (C ! i))"
      proof (cases "p \<in> set A")
        case True
        then have "p = A ! i" using uniqueAroInv_match_eq[OF uA _ mem m] by simp
        then show ?thesis using mergeAll_level[of "A ! i" B] ci by simp
      next
        case False
        then have "p \<in> set B" using p by simp
        moreover have "isAroMatching (A ! i) p" using m by (rule isAroMatching_sym)
        ultimately show ?thesis using mergeAll_level_b ci by simp
      qed
    qed
    show "isAroMatching (C ! i) (A ! i) \<and> C ! i \<in> set A \<union> set B \<and>
         (\<forall>p\<in>set A \<union> set B. isAroMatching p (A ! i) \<longrightarrow>
            level_rank (perm_type p) \<le> level_rank (perm_type (C ! i)))"
      using 1 2 3 by blast
  qed
  have ownC: "ov = Some False \<or> list_ex isOwner C"
  proof (cases "ov = Some False")
    case True
    then show ?thesis by simp
  next
    case False
    then have "list_ex isOwner (A @ B)" using own by simp
    then obtain p where p: "p \<in> set A \<union> set B" "isOwner p" by (auto simp: list_ex_iff)
    have "\<exists>a\<in>set A. isAroMatching p a"
    proof (cases "p \<in> set A")
      case True
      then show ?thesis by (auto simp: isAroMatching_def)
    next
      case False
      then show ?thesis using p(1) sub isAroMatching_sym by blast
    qed
    then obtain i where i: "i < length A" "isAroMatching p (A ! i)"
      by (auto simp: in_set_conv_nth)
    then have "level_rank (perm_type p) \<le> level_rank (perm_type (C ! i))"
      using props p(1) by blast
    then have "isOwner (C ! i)" using p(2) isOwner_level by blast
    moreover have "C ! i \<in> set C" using i(1) by (simp add: C_def)
    ultimately show ?thesis by (auto simp: list_ex_iff)
  qed
  show u1: "unionByAcoAndType schema A B ov = Inr C"
    using unionByAcoAndType_eq[OF c0 f ownC] .
  show "\<forall>i<length A. isAroMatching (C ! i) (A ! i) \<and> C ! i \<in> set A \<union> set B \<and>
         (\<forall>p\<in>set A \<union> set B. isAroMatching p (A ! i) \<longrightarrow>
            level_rank (perm_type p) \<le> level_rank (perm_type (C ! i)))"
    using props .
  have invC: "collectionInv C" using unionByAcoAndType_inv[OF u1] .
  have inC: "set C \<subseteq> set A \<union> set B"
  proof
    fix c assume "c \<in> set C"
    then obtain a where "a \<in> set A" "c = mergeAll B a" by (auto simp: C_def)
    then show "c \<in> set A \<union> set B" using mergeAll_mem[of B a] by auto
  qed
  have sA: "\<forall>a\<in>set A. schema a" and sB: "\<forall>b\<in>set B. schema b"
    using A(2) B(2) by (simp_all add: list_all_iff)
  then have schC: "list_all schema C" using inC by (auto simp: list_all_iff)
  have c1: "PermissionsCollection schema (map toDto C) (Some False) = Inr C"
    using PermissionsCollection_unchecked[OF invC schC] by (simp add: toDto_map)
  have acoC: "\<forall>b\<in>set B. \<forall>c\<in>set C. isAcoMatching b c"
  proof (intro ballI)
    fix b c assume b: "b \<in> set B" and c: "c \<in> set C"
    from sub b obtain a0 where a0: "a0 \<in> set A" by blast
    have "c \<in> set A \<or> c \<in> set B" using inC c by blast
    then show "isAcoMatching b c"
    proof
      assume "c \<in> set A"
      then show ?thesis using aco b by simp
    next
      assume "c \<in> set B"
      then have "isAcoMatching c a0" "isAcoMatching b a0" using aco b a0 by simp_all
      then show ?thesis by (simp add: isAcoMatching_def)
    qed
  qed
  have subC: "\<forall>b\<in>set B. \<exists>c\<in>set C. isAroMatching c b"
  proof
    fix b assume "b \<in> set B"
    then obtain a where a: "a \<in> set A" "isAroMatching a b" using sub by blast
    then have "isAroMatching (mergeAll B a) b" by (simp add: isAroMatching_aroKey mergeAll_aroKey)
    then show "\<exists>c\<in>set C. isAroMatching c b" using a(1) by (auto simp: C_def)
  qed
  have idsC: "\<forall>b\<in>set B. \<forall>c\<in>set C. idClash c b \<longrightarrow> isAroMatching c b"
  proof (intro ballI impI)
    fix b c assume b: "b \<in> set B" and c: "c \<in> set C" and cl: "idClash c b"
    have "c \<in> set A \<or> c \<in> set B" using inC c by blast
    then show "isAroMatching c b"
    proof
      assume "c \<in> set A"
      then show ?thesis using ids b cl by simp
    next
      assume "c \<in> set B"
      then have "c = b" using uniqueIdInv_clash_eq[OF uB _ b cl] by simp
      then show ?thesis by (simp add: isAroMatching_def)
    qed
  qed
  have "addOrReplace_all schema B C = Inr (map (mergeAll B) C)"
    using invC B(2) uB acoC subC idsC by (rule addOrReplace_all_merge)
  moreover have "map (mergeAll B) C = C"
    by (simp add: C_def mergeAll_idem)
  ultimately have f2: "addOrReplace_all schema B C = Inr C" by simp
  show "unionByAcoAndType schema C B ov = Inr C"
    using unionByAcoAndType_eq[OF c1 f2 ownC] .
qed


text \<open>
  Claim C2, as stated, fails. Each pair below consists of two collections that the
  constructor returns, every ARO of the second occurring in the first. The union throws
  SAME_ACO when the two are about different ACOs, UNIQUE_ID when a member of the second
  carries the identifier of a member of the first about another ARO, and ONE_OWNER when
  neither has an owner (both built with owner validation disabled).
\<close>

theorem unionByAcoAndType_subset_counterexample:
  "PermissionsCollection example_schema [r1_u1_owner_p9] None = Inr [r1_u1_owner_p9] \<and>
   PermissionsCollection example_schema [f1_u1_owner_new] None = Inr [f1_u1_owner_new] \<and>
   list_all (\<lambda>b. list_ex (\<lambda>a. isAroMatching a b) [r1_u1_owner_p9]) [f1_u1_owner_new] \<and>
   unionByAcoAndType example_schema [r1_u1_owner_p9] [f1_u1_owner_new] None =
     Inl (EntityCollectionError 0 RULE_SAME_ACO) \<and>
   PermissionsCollection example_schema [r1_u1_read, r1_u2_owner] None =
     Inr [r1_u1_read, r1_u2_owner] \<and>
   PermissionsCollection example_schema [r1_u1_owner_p2] None = Inr [r1_u1_owner_p2] \<and>
   list_all (\<lambda>b. list_ex (\<lambda>a. isAroMatching a b) [r1_u1_read, r1_u2_owner]) [r1_u1_owner_p2] \<and>
   unionByAcoAndType example_schema [r1_u1_read, r1_u2_owner] [r1_u1_owner_p2] None =
     Inl (EntityCollectionError 1 RULE_UNIQUE_ID) \<and>
   PermissionsCollection example_schema [r1_u1_read] (Some False) = Inr [r1_u1_read] \<and>
   list_all (\<lambda>b. list_ex (\<lambda>a. isAroMatching a b) [r1_u1_read]) [r1_u1_read] \<and>
   unionByAcoAndType example_schema [r1_u1_read] [r1_u1_read] None =
     Inl (EntityCollectionError 0 RULE_ONE_OWNER)"
  by (simp add: union_eval example_schema_def)

text \<open>
  Claim C2, amended. Let \<open>A\<close> and \<open>B\<close> be collections (they satisfy the structural
  invariants and their members pass the schema) about the same ACO, every (ARO type, ARO
  id) pair of \<open>B\<close> occurring in \<open>A\<close>, no member of \<open>B\<close> carrying the identifier of a member
  of \<open>A\<close> about another ARO, and, unless owner validation is disabled, \<open>A\<close> or \<open>B\<close> having
  an owner. Then \<^verbatim>\<open>unionByAcoAndType(A, B)\<close> returns a collection \<open>C\<close> with exactly \<open>|A|\<close>
  entries, about the AROs of \<open>A\<close> in the order of \<open>A\<close>, each entry being the member of \<open>A\<close>
  or \<open>B\<close> with the highest level for its ARO. The union is idempotent: uniting \<open>C\<close> with
  \<open>B\<close> again returns \<open>C\<close>, and \<open>C\<close> is \<open>A\<close> itself when no member of \<open>B\<close> has a higher
  level than the member of \<open>A\<close> about its ARO.
\<close>

theorem unionByAcoAndType_subset:
  assumes "collectionInv A" and "list_all schema A"
    and "collectionInv B" and "list_all schema B"
    and "\<forall>b\<in>set B. \<forall>a\<in>set A. isAcoMatching b a"
    and "\<forall>b\<in>set B. \<exists>a\<in>set A. isAroMatching a b"
    and "\<forall>b\<in>set B. \<forall>a\<in>set A. idClash a b \<longrightarrow> isAroMatching a b"
    and "ov = Some False \<or> list_ex isOwner (A @ B)"
  shows "\<exists>C. unionByAcoAndType schema A B ov = Inr C \<and> length C = length A \<and>
     (\<forall>i<length A. isAroMatching (C ! i) (A ! i) \<and> C ! i \<in> set A \<union> set B \<and>
         (\<forall>p\<in>set A \<union> set B. isAroMatching p (A ! i) \<longrightarrow>
            level_rank (perm_type p) \<le> level_rank (perm_type (C ! i)))) \<and>
     unionByAcoAndType schema C B ov = Inr C \<and>
     ((\<forall>b\<in>set B. \<forall>a\<in>set A. isAroMatching a b \<longrightarrow>
          level_rank (perm_type b) \<le> level_rank (perm_type a)) \<longrightarrow> C = A)"
proof -
  let ?C = "map (mergeAll B) A"
  note m = union_subset_main[OF assms]
  have "(\<forall>b\<in>set B. \<forall>a\<in>set A. isAroMatching a b \<longrightarrow>
          level_rank (perm_type b) \<le> level_rank (perm_type a)) \<longrightarrow> ?C = A"
  proof
    assume d: "\<forall>b\<in>set B. \<forall>a\<in>set A. isAroMatching a b \<longrightarrow>
          level_rank (perm_type b) \<le> level_rank (perm_type a)"
    have "\<forall>a\<in>set A. mergeAll B a = a"
    proof
      fix a assume "a \<in> set A"
      then show "mergeAll B a = a" using d by (intro mergeAll_dominated) blast
    qed
    then show "?C = A" by (simp add: map_idI)
  qed
  moreover have "length ?C = length A" by simp
  ultimately show ?thesis using m by blast
qed

theorem unionByAcoAndType_subset_witness:
  "collectionInv [r1_u1_read, r1_u2_owner] \<and> collectionInv [r1_u1_owner_p9] \<and>
   unionByAcoAndType example_schema [r1_u1_read, r1_u2_owner] [r1_u1_owner_p9] None =
     Inr [r1_u1_owner_p9, r1_u2_owner] \<and>
   unionByAcoAndType example_schema [r1_u1_owner_p9, r1_u2_owner] [r1_u1_owner_p9] None =
     Inr [r1_u1_owner_p9, r1_u2_owner]"
proof -
  have h: "collectionInv [r1_u1_read, r1_u2_owner]"
    "list_all example_schema [r1_u1_read, r1_u2_owner]"
    "collectionInv [r1_u1_owner_p9]" "list_all example_schema [r1_u1_owner_p9]"
    "\<forall>b\<in>set [r1_u1_owner_p9]. \<forall>a\<in>set [r1_u1_read, r1_u2_owner]. isAcoMatching b a"
    "\<forall>b\<in>set [r1_u1_owner_p9]. \<exists>a\<in>set [r1_u1_read, r1_u2_owner]. isAroMatching a b"
    "\<forall>b\<in>set [r1_u1_owner_p9]. \<forall>a\<in>set [r1_u1_read, r1_u2_owner].
        idClash a b \<longrightarrow> isAroMatching a b"
    "None = Some False \<or> list_ex isOwner ([r1_u1_read, r1_u2_owner] @ [r1_u1_owner_p9])"
    by (simp_all add: inv_eval example_schema_def isAroMatching_def idClash_def isOwner_def)
  have e: "unionByAcoAndType example_schema [r1_u1_read, r1_u2_owner] [r1_u1_owner_p9] None =
     Inr [r1_u1_owner_p9, r1_u2_owner]"
    by (simp add: union_eval example_schema_def)
  from unionByAcoAndType_subset[OF h] obtain C where
    "unionByAcoAndType example_schema [r1_u1_read, r1_u2_owner] [r1_u1_owner_p9] None = Inr C"
    "unionByAcoAndType example_schema C [r1_u1_owner_p9] None = Inr C"
    by blast
  then have "unionByAcoAndType example_schema [r1_u1_owner_p9, r1_u2_owner] [r1_u1_owner_p9] None =
     Inr [r1_u1_owner_p9, r1_u2_owner]"
    using e by simp
  then show ?thesis using h(1,3) e by blast
qed

section \<open>Cloning the permissions of the parent folder\<close>

lemma addOrReplace_ok:
  assumes "addOrReplace schema p items = (Inr u, items')"
  shows "(items' = items @ [p] \<and> schema p \<and>
        (items = [] \<or> isAcoMatching p (items ! 0)) \<and>
        (\<forall>e\<in>set items. \<not> idClash e p) \<and> (\<forall>e\<in>set items. \<not> isAroMatching p e)) \<or>
     (schema p \<and>
        (\<exists>k<length items. items' = items[k := getHighestPermission (items ! k) p] \<and>
           isAcoAndAroMatching (items ! k) p \<and>
           (idClash (items ! k) p \<or> (\<forall>e\<in>set items. \<not> idClash e p))))"
proof (cases "push schema (Entity p) items")
  case (Pair o1 s1)
  show ?thesis
  proof (cases o1)
    case (Inr v)
    then have "addOrReplace schema p items = (Inr (), s1)"
      using Pair addOrReplace_push_ok by simp
    then have "s1 = items'" using assms by simp
    then show ?thesis using push_ok[of schema "Entity p" items v s1] Pair Inr by auto
  next
    case (Inl err)
    then have pf: "push schema (Entity p) items = (Inl err, s1)" using Pair by simp
    note f = push_failure[OF pf]
    then have s1: "s1 = items" by simp
    note ar = addOrReplace_push_failed[OF pf, unfolded s1]
    from f consider
        (invalid) "err = EntityValidationError"
      | (aco) "err = EntityCollectionError 0 RULE_SAME_ACO"
      | (id) k where "schema p" "k < length items" "err = EntityCollectionError k RULE_UNIQUE_ID"
          "idClash (items ! k) p"
      | (aro) k where "schema p" "k < length items" "err = EntityCollectionError k RULE_UNIQUE_ARO"
          "\<forall>e\<in>set items. \<not> idClash e p"
      by blast
    then show ?thesis
    proof cases
      case invalid
      then show ?thesis using ar assms by simp
    next
      case aco
      then show ?thesis using ar assms by (simp add: recover_def)
    next
      case id
      then show ?thesis using ar assms by (auto simp: recover_def split: if_splits)
    next
      case aro
      then show ?thesis using ar assms by (auto simp: recover_def split: if_splits)
    qed
  qed
qed

lemma getHighestPermission_ge:
  "level_rank (perm_type b) \<le> level_rank (perm_type (getHighestPermission a b))"
  by (simp add: getHighestPermission_def)

lemma addOrReplace_ok_contains:
  assumes "addOrReplace schema p items = (Inr u, items')"
  shows "\<exists>q\<in>set items'. isAroMatching q p \<and>
           level_rank (perm_type p) \<le> level_rank (perm_type q)"
proof -
  from addOrReplace_ok[OF assms] show ?thesis
  proof
    assume "items' = items @ [p] \<and> schema p \<and>
        (items = [] \<or> isAcoMatching p (items ! 0)) \<and>
        (\<forall>e\<in>set items. \<not> idClash e p) \<and> (\<forall>e\<in>set items. \<not> isAroMatching p e)"
    then have "p \<in> set items'" by simp
    then show ?thesis by (auto simp: isAroMatching_def)
  next
    assume "schema p \<and>
        (\<exists>k<length items. items' = items[k := getHighestPermission (items ! k) p] \<and>
           isAcoAndAroMatching (items ! k) p \<and>
           (idClash (items ! k) p \<or> (\<forall>e\<in>set items. \<not> idClash e p)))"
    then obtain k where k: "k < length items"
      "items' = items[k := getHighestPermission (items ! k) p]"
      "isAcoAndAroMatching (items ! k) p" by blast
    let ?q = "getHighestPermission (items ! k) p"
    have "?q \<in> set items'" using k(1,2) by (simp add: set_update_memI)
    moreover have "isAroMatching ?q p"
      using getHighestPermission_cases[of "items ! k" p] k(3)
      by (auto simp: isAcoAndAroMatching_def isAroMatching_def)
    moreover have "level_rank (perm_type p) \<le> level_rank (perm_type ?q)"
      by (rule getHighestPermission_ge)
    ultimately show ?thesis by blast
  qed
qed

lemma addOrReplace_succeeds:
  assumes inv: "collectionInv items" and sp: "schema b"
    and aco: "\<forall>e\<in>set items. isAcoMatching b e"
    and ids: "\<forall>e\<in>set items. idClash e b \<longrightarrow> isAroMatching e b"
  shows "\<exists>items'. addOrReplace schema b items = (Inr (), items')"
proof (cases "\<exists>e\<in>set items. isAroMatching e b")
  case True
  then show ?thesis
    using addOrReplace_merge[where schema=schema and b=b and items=items, OF inv sp aco _ ids]
    by blast
next
  case False
  then have na: "\<forall>e\<in>set items. \<not> isAroMatching b e" using isAroMatching_sym by blast
  have nc: "\<forall>e\<in>set items. \<not> idClash e b" using False ids by blast
  have a0: "items = [] \<or> isAcoMatching b (items ! 0)"
  proof (cases "items = []")
    case True
    then show ?thesis by simp
  next
    case False
    then have "items ! 0 \<in> set items" by simp
    then show ?thesis using aco by blast
  qed
  have "push schema (Entity b) items = (Inr (), items @ [b])"
    using push_success[where schema=schema and p=b and arg="Entity b" and items=items]
      sp a0 nc na by blast
  then show ?thesis using addOrReplace_push_ok by blast
qed

lemma clone_loop_success:
  assumes "collectionInv (items @ map (\<lambda>p. copyForAnotherAco p acoType acoId) ps)"
    and "list_all (\<lambda>p. schema (copyForAnotherAco p acoType acoId)) ps"
  shows "clone_loop schema acoType acoId ps items =
     Inr (items @ map (\<lambda>p. copyForAnotherAco p acoType acoId) ps)"
  using assms
proof (induction ps arbitrary: items)
  case Nil
  then show ?case by simp
next
  case (Cons p ps)
  let ?c = "copyForAnotherAco p acoType acoId"
  have inv: "collectionInv ((items @ [?c]) @ map (\<lambda>p. copyForAnotherAco p acoType acoId) ps)"
    using Cons.prems(1) by simp
  then have "collectionInv (items @ [?c])" by (rule collectionInv_prefix)
  then have c: "items = [] \<or> isAcoMatching ?c (items ! 0)"
    "\<forall>e\<in>set items. \<not> idClash e ?c" "\<forall>e\<in>set items. \<not> isAroMatching ?c e"
    unfolding collectionInv_snoc_iff by blast+
  have sc: "schema ?c" and r: "list_all (\<lambda>p. schema (copyForAnotherAco p acoType acoId)) ps"
    using Cons.prems(2) by simp_all
  have "push schema (Entity ?c) items = (Inr (), items @ [?c])"
    using push_success[where schema=schema and p="?c" and arg="Entity ?c" and items=items] sc c
    by blast
  then have "addOrReplace schema ?c items = (Inr (), items @ [?c])"
    by (rule addOrReplace_push_ok)
  then show ?case using Cons.IH[OF inv r] by (simp add: Let_def)
qed

lemma collectionInv_copies:
  assumes "collectionInv ps"
  shows "collectionInv (map (\<lambda>p. copyForAnotherAco p acoType acoId) ps)"
proof -
  have a: "uniqueAroInv (map (\<lambda>p. copyForAnotherAco p acoType acoId) ps) = uniqueAroInv ps"
  proof -
    have "aroKey \<circ> (\<lambda>p. copyForAnotherAco p acoType acoId) = aroKey"
      by (rule ext) (simp add: aroKey_def copyForAnotherAco_def)
    then show ?thesis by (simp add: uniqueAroInv_def)
  qed
  have b: "uniqueIdInv (map (\<lambda>p. copyForAnotherAco p acoType acoId) ps) = uniqueIdInv ps"
    by (simp add: uniqueIdInv_def copyForAnotherAco_def comp_def)
  have c: "sameAcoInv (map (\<lambda>p. copyForAnotherAco p acoType acoId) ps)"
    by (auto simp: sameAcoInv_def isAcoMatching_def copyForAnotherAco_def)
  show ?thesis using assms a b c by (simp add: collectionInv_def)
qed

section \<open>applyPermissionFromParent keeps the ownership\<close>

lemma PermissionsCollection_success:
  assumes "collectionInv xs" and "list_all schema xs"
    and "ov = Some False \<or> list_ex isOwner xs"
  shows "PermissionsCollection schema xs ov = Inr xs"
proof -
  have "collectionInv ([] @ xs)" using assms(1) by simp
  then have "push_all schema xs [] = Inr ([] @ xs)" using assms(2) by (rule push_all_success)
  then show ?thesis
    using assms(2,3) by (auto simp: PermissionsCollection_def assertAtLeastOneOwner_eq)
qed

lemma collectionInv_single: "collectionInv [p]"
  by (simp add: collectionInv_def sameAcoInv_def uniqueAroInv_def uniqueIdInv_def
      isAcoMatching_def)

lemma PermissionsCollection_single_not_owner:
  assumes "\<not> isOwner p"
  shows "PermissionsCollection schema [p] None =
     Inl (if schema p then EntityCollectionError 0 RULE_ONE_OWNER else EntityValidationError)"
  using assms by (simp add: constructor_eval)

text \<open>
  Claim C7, as stated, fails. The folder \<open>f1\<close> has a parent, but \<^verbatim>\<open>applyPermissionFromParent\<close>
  first builds the current permission set from the folder's own permission with owner
  validation on: when the own permission is of Update level the call throws ONE_OWNER and
  computes no target set. No target set is computed either when the parent cannot be read,
  when the own permission is about another ACO than the folder (SAME_ACO), or when it
  carries the identifier of a parent permission about another ARO (UNIQUE_ID).
\<close>

theorem applyPermissionFromParent_counterexample:
  "truthy (folderParentId folder_f1_update) \<and>
   applyPermissionFromParent example_schema (Inr [f0_u1_owner]) folder_f1_update (Some True) =
     Inl (EntityCollectionError 0 RULE_ONE_OWNER) \<and>
   applyPermissionFromParent example_schema (Inl EntityValidationError) folder_f1 (Some True) =
     Inl EntityValidationError \<and>
   applyPermissionFromParent example_schema (Inr [f0_u1_owner]) folder_f1_resource (Some True) =
     Inl (EntityCollectionError 0 RULE_SAME_ACO) \<and>
   applyPermissionFromParent example_schema (Inr [f0_u1_owner]) folder_f1_p5 (Some True) =
     Inl (EntityCollectionError 0 RULE_UNIQUE_ID)"
  by (simp add: folder_eval example_schema_def)

text \<open>
  Claim C7, amended. Let a folder have a parent and \<open>keepOwnership\<close> be true or omitted.
  If the folder's own permission is of Owner level, passes the schema, is about the folder
  and does not carry the identifier of a parent permission about another ARO, and the
  parent's permissions are obtained and form a collection whose copies for the folder pass
  the schema, then \<^verbatim>\<open>applyPermissionFromParent\<close> computes a target permission set, and the
  target set has an entry about the ARO of the own permission at Owner level: the acting
  user retains Owner. If the own permission is below Owner level, the call throws
  (ONE_OWNER when the permission passes the schema) and computes no target set. Every
  target set that is computed has an entry about the ARO of the own permission at a level
  at least the level of that permission.
\<close>

theorem applyPermissionFromParent_keeps_ownership:
  assumes "truthy (folderParentId f)" and "keepOwnership = None \<or> keepOwnership = Some True"
  shows
   "((\<exists>ps. parent = Inr ps \<and> collectionInv ps \<and>
          list_all (\<lambda>p. schema (copyForAnotherAco p Folder (folder_id f))) ps \<and>
          (\<forall>p\<in>set ps. idClash p (folder_permission f) \<longrightarrow> isAroMatching p (folder_permission f))) \<and>
      schema (folder_permission f) \<and> isOwner (folder_permission f) \<and>
      aco (folder_permission f) = Folder \<and> aco_foreign_key (folder_permission f) = folder_id f \<longrightarrow>
      (\<exists>target. applyPermissionFromParent schema parent f keepOwnership =
                  Inr (Some ([folder_permission f], target)) \<and>
               (\<exists>q\<in>set target. isAroMatching q (folder_permission f) \<and> isOwner q))) \<and>
    (\<not> isOwner (folder_permission f) \<longrightarrow>
       applyPermissionFromParent schema parent f keepOwnership =
         Inl (if schema (folder_permission f) then EntityCollectionError 0 RULE_ONE_OWNER
              else EntityValidationError)) \<and>
    (\<forall>current target.
       applyPermissionFromParent schema parent f keepOwnership = Inr (Some (current, target)) \<longrightarrow>
       (\<exists>q\<in>set target. isAroMatching q (folder_permission f) \<and>
          level_rank (perm_type (folder_permission f)) \<le> level_rank (perm_type q)))"
proof -
  let ?own = "folder_permission f"
  let ?copy = "\<lambda>p. copyForAnotherAco p Folder (folder_id f)"
  let ?result = "applyPermissionFromParent schema parent f keepOwnership"
  have partial: "\<forall>current target. ?result = Inr (Some (current, target)) \<longrightarrow>
       (\<exists>q\<in>set target. isAroMatching q ?own \<and>
          level_rank (perm_type ?own) \<le> level_rank (perm_type q))"
  proof (intro allI impI)
    fix current target
    assume r: "?result = Inr (Some (current, target))"
    then obtain t0 u where "addOrReplace schema ?own t0 = (Inr u, target)"
      using assms
      by (auto simp: applyPermissionFromParent_def split: sum.splits prod.splits if_splits)
    then show "\<exists>q\<in>set target. isAroMatching q ?own \<and>
          level_rank (perm_type ?own) \<le> level_rank (perm_type q)"
      by (rule addOrReplace_ok_contains)
  qed
  have below: "\<not> isOwner ?own \<longrightarrow>
       ?result = Inl (if schema ?own then EntityCollectionError 0 RULE_ONE_OWNER
                      else EntityValidationError)"
  proof
    assume "\<not> isOwner ?own"
    then have "PermissionsCollection schema [?own] None =
        Inl (if schema ?own then EntityCollectionError 0 RULE_ONE_OWNER
             else EntityValidationError)"
      by (rule PermissionsCollection_single_not_owner)
    then show "?result = Inl (if schema ?own then EntityCollectionError 0 RULE_ONE_OWNER
                      else EntityValidationError)"
      using assms(1) by (simp add: applyPermissionFromParent_def)
  qed
  have total: "(\<exists>ps. parent = Inr ps \<and> collectionInv ps \<and>
          list_all (\<lambda>p. schema (?copy p)) ps \<and>
          (\<forall>p\<in>set ps. idClash p ?own \<longrightarrow> isAroMatching p ?own)) \<and>
      schema ?own \<and> isOwner ?own \<and> aco ?own = Folder \<and> aco_foreign_key ?own = folder_id f \<longrightarrow>
      (\<exists>target. ?result = Inr (Some ([?own], target)) \<and>
               (\<exists>q\<in>set target. isAroMatching q ?own \<and> isOwner q))"
  proof
    assume h: "(\<exists>ps. parent = Inr ps \<and> collectionInv ps \<and>
          list_all (\<lambda>p. schema (?copy p)) ps \<and>
          (\<forall>p\<in>set ps. idClash p ?own \<longrightarrow> isAroMatching p ?own)) \<and>
      schema ?own \<and> isOwner ?own \<and> aco ?own = Folder \<and> aco_foreign_key ?own = folder_id f"
    then obtain ps where ps: "parent = Inr ps" "collectionInv ps"
      "list_all (\<lambda>p. schema (?copy p)) ps"
      "\<forall>p\<in>set ps. idClash p ?own \<longrightarrow> isAroMatching p ?own" by blast
    from h have own: "schema ?own" "isOwner ?own" "aco ?own = Folder"
      "aco_foreign_key ?own = folder_id f" by simp_all
    have cur: "PermissionsCollection schema [?own] None = Inr [?own]"
      using own(1,2) by (intro PermissionsCollection_success collectionInv_single) simp_all
    have invc: "collectionInv (map ?copy ps)" using ps(2) by (rule collectionInv_copies)
    have "PermissionsCollection schema [] (Some False) = Inr []"
      by (simp add: PermissionsCollection_def)
    moreover have "clone_loop schema Folder (folder_id f) ps [] = Inr ([] @ map ?copy ps)"
      using invc ps(3) by (intro clone_loop_success) simp_all
    ultimately have clone: "cloneParentPermissions schema parent Folder (folder_id f) =
        Inr (map ?copy ps)"
      using ps(1) by (simp add: cloneParentPermissions_def)
    have aco: "\<forall>e\<in>set (map ?copy ps). isAcoMatching ?own e"
      using own(3,4) by (auto simp: isAcoMatching_def copyForAnotherAco_def)
    have ids: "\<forall>e\<in>set (map ?copy ps). idClash e ?own \<longrightarrow> isAroMatching e ?own"
      using ps(4) by (auto simp: idClash_def isAroMatching_def copyForAnotherAco_def)
    from addOrReplace_succeeds[where schema=schema and b="?own" and items="map ?copy ps",
        OF invc own(1) aco ids] obtain target where
      "addOrReplace schema ?own (map ?copy ps) = (Inr (), target)" by blast
    then have r: "?result = Inr (Some ([?own], target))"
      using assms cur clone by (auto simp: applyPermissionFromParent_def)
    then obtain q where q: "q \<in> set target" "isAroMatching q ?own"
      "level_rank (perm_type ?own) \<le> level_rank (perm_type q)"
      using partial by blast
    have "isOwner q" using own(2) q(3) by (rule isOwner_level)
    then show "\<exists>target. ?result = Inr (Some ([?own], target)) \<and>
               (\<exists>q\<in>set target. isAroMatching q ?own \<and> isOwner q)"
      using r q(1,2) by blast
  qed
  show ?thesis using total below partial by blast
qed

theorem applyPermissionFromParent_keeps_ownership_witness:
  "truthy (folderParentId folder_f1) \<and> isOwner (folder_permission folder_f1) \<and>
   collectionInv [f0_u1_owner] \<and>
   applyPermissionFromParent example_schema (Inr [f0_u1_owner]) folder_f1 (Some True) =
     Inr (Some ([f1_u2_owner], [f1_u1_owner, f1_u2_owner])) \<and>
   (\<exists>target. applyPermissionFromParent example_schema (Inr [f0_u1_owner]) folder_f1 (Some True) =
                Inr (Some ([folder_permission folder_f1], target)) \<and>
             (\<exists>q\<in>set target. isAroMatching q (folder_permission folder_f1) \<and> isOwner q))"
proof -
  have t: "truthy (folderParentId folder_f1)" by (simp add: truthy_def)
  have k: "Some True = None \<or> Some True = Some True" by simp
  have o: "isOwner (folder_permission folder_f1)" by (simp add: isOwner_def)
  have c: "collectionInv [f0_u1_owner]" by (rule collectionInv_single)
  have h: "(\<exists>ps. Inr [f0_u1_owner] = Inr ps \<and> collectionInv ps \<and>
          list_all (\<lambda>p. example_schema (copyForAnotherAco p Folder (folder_id folder_f1))) ps \<and>
          (\<forall>p\<in>set ps. idClash p (folder_permission folder_f1) \<longrightarrow>
             isAroMatching p (folder_permission folder_f1))) \<and>
      example_schema (folder_permission folder_f1) \<and> isOwner (folder_permission folder_f1) \<and>
      aco (folder_permission folder_f1) = Folder \<and>
      aco_foreign_key (folder_permission folder_f1) = folder_id folder_f1"
    using c by (simp add: example_schema_def copyForAnotherAco_def idClash_def isOwner_def)
  have e: "applyPermissionFromParent example_schema (Inr [f0_u1_owner]) folder_f1 (Some True) =
     Inr (Some ([f1_u2_owner], [f1_u1_owner, f1_u2_owner]))"
    by (simp add: folder_eval example_schema_def)
  from applyPermissionFromParent_keeps_ownership[OF t k, of "Inr [f0_u1_owner]" example_schema] h
  have "\<exists>target. applyPermissionFromParent example_schema (Inr [f0_u1_owner]) folder_f1 (Some True) =
                Inr (Some ([folder_permission folder_f1], target)) \<and>
             (\<exists>q\<in>set target. isAroMatching q (folder_permission folder_f1) \<and> isOwner q)"
    by blast
  then show ?thesis using t o c e by blast
qed

section \<open>Members and the objects of the caller\<close>

text \<open>
  Over the store the operations do to the members what the operations on values do: a
  reference of the collection or of the caller denotes the same object before and after.
\<close>

lemma members_append_heap:
  "\<forall>r\<in>set items. r < length h \<Longrightarrow> members (h @ xs) items = members h items"
  by (simp add: members_def nth_append)

lemma push_h_refines_push:
  assumes "\<forall>r\<in>set items. r < length h" and "a < length h"
    and "push_h schema (EntityRef a) (h, items) = (r, (h', items'))"
  shows "push schema (Entity (h ! a)) (members h items) = (r, members h' items')"
proof (cases "schema (h ! a)")
  case False
  then show ?thesis
    using assms(3) push_invalid[of schema "h ! a" "Entity (h ! a)" "members h items"]
    by (simp add: push_h_def push_h_dto_def new_PermissionEntity_def toDto_def)
next
  case True
  let ?h' = "h @ [h ! a]"
  have m: "members ?h' items = members h items"
    using assms(1) by (rule members_append_heap)
  have m2: "members ?h' (items @ [length h]) = members h items @ [h ! a]"
    using m by (simp add: members_def)
  note pv = push_valid[of schema "h ! a" "Entity (h ! a)" "members h items", simplified, OF True]
  show ?thesis
    using assms(3) True m m2 unfolding pv
    by (auto simp: push_h_def push_h_dto_def new_PermissionEntity_def toDto_def Let_def split: sum.splits)
qed

text \<open>
  \<^verbatim>\<open>push\<close> stores a new object: changing the caller's object afterwards does not change
  the member.
\<close>

lemma push_h_stores_copy:
  assumes "a < length h"
    and "push_h schema (EntityRef a) (h, items) = (Inr u, (h', items'))"
  shows "items' = items @ [length h] \<and> h' = h @ [h ! a] \<and>
         members (mutate h' a x) [last items'] = members h' [last items']"
  using assms
  by (auto simp: push_h_def push_h_dto_def new_PermissionEntity_def toDto_def Let_def members_def mutate_def
      split: sum.splits if_splits)

lemma push_h_heap:
  assumes "push_h schema (EntityRef a) (h, items) = (r, (h', items'))"
  shows "(h' = h \<or> h' = h @ [h ! a]) \<and> (items' = items \<or> items' = items @ [length h]) \<and>
         (\<forall>e. r = Inl e \<longrightarrow> items' = items)"
  using assms
  by (auto simp: push_h_def push_h_dto_def new_PermissionEntity_def toDto_def Let_def
      split: sum.splits if_splits)

lemma getHighestPermission_ref_deref:
  "h ! getHighestPermission_ref h a b = getHighestPermission (h ! a) (h ! b)"
  by (simp add: getHighestPermission_ref_def getHighestPermission_def)

lemma addOrReplace_h_refines_addOrReplace:
  assumes v: "\<forall>r\<in>set items. r < length h" and a: "a < length h"
    and ar: "addOrReplace_h schema a (h, items) = (r, (h', items'))"
  shows "addOrReplace schema (h ! a) (members h items) = (r, members h' items')"
proof (cases "push_h schema (EntityRef a) (h, items)")
  case (fields o1 h1 items1)
  note p = push_h_refines_push[OF v a fields]
  note hh = push_h_heap[OF fields]
  show ?thesis
  proof (cases o1)
    case (Inr u)
    then have "addOrReplace_h schema a (h, items) = (Inr (), (h1, items1))"
      using fields by (simp add: addOrReplace_h_def)
    then have "r = Inr ()" "h' = h1" "items' = items1" using ar by simp_all
    then show ?thesis using p Inr addOrReplace_push_ok by simp
  next
    case (Inl err)
    then have i1: "items1 = items" using hh by simp
    have deref: "\<forall>x<length h. h1 ! x = h ! x" using hh by (auto simp: nth_append)
    have m1: "members h1 items = members h items"
      using v deref by (simp add: members_def)
    have pf: "push schema (Entity (h ! a)) (members h items) = (Inl err, members h items)"
      using p Inl i1 m1 by simp
    note av = addOrReplace_push_failed[OF pf]
    have upd: "\<And>k x. k < length items \<Longrightarrow>
        members h1 (items[k := getHighestPermission_ref h1 (items ! k) a]) =
        (members h items)[k := getHighestPermission (members h items ! k) (h ! a)]"
    proof -
      fix k assume k: "k < length items"
      then have ik: "items ! k < length h" using v by simp
      have "members h1 (items[k := getHighestPermission_ref h1 (items ! k) a]) =
          (members h1 items)[k := h1 ! getHighestPermission_ref h1 (items ! k) a]"
        by (simp add: members_def map_update)
      also have "\<dots> = (members h items)[k := getHighestPermission (h ! (items ! k)) (h ! a)]"
        using m1 deref ik a by (simp add: getHighestPermission_ref_deref)
      also have "h ! (items ! k) = members h items ! k" using k by (simp add: members_def)
      finally show "members h1 (items[k := getHighestPermission_ref h1 (items ! k) a]) =
        (members h items)[k := getHighestPermission (members h items ! k) (h ! a)]" .
    qed
    have ah: "addOrReplace_h schema a (h, items) =
      (case err of
         EntityCollectionError position r \<Rightarrow>
           if r \<notin> set recover then (Inl err, (h1, items))
           else if position < length items then
             (if isAcoAndAroMatching (h1 ! (items ! position)) (h1 ! a)
              then (Inr (), (h1, items[position := getHighestPermission_ref h1 (items ! position) a]))
              else (Inl err, (h1, items)))
           else (Inl TypeError, (h1, items))
       | _ \<Rightarrow> (Inl err, (h1, items)))"
      using fields Inl i1 by (cases err) (simp_all add: addOrReplace_h_def Let_def)
    show ?thesis
    proof (cases err)
      case TypeError
      then show ?thesis using ah av ar m1 by simp
    next
      case EntityValidationError
      then show ?thesis using ah av ar m1 by simp
    next
      case (EntityCollectionError k rl)
      show ?thesis
      proof (cases "rl \<in> set recover \<and> k < length items")
        case False
        then show ?thesis using ah av ar m1 EntityCollectionError
          by (auto simp: members_def split: if_splits)
      next
        case True
        then have k: "k < length items" by simp
        then have ik: "items ! k < length h" using v by simp
        have d: "h1 ! (items ! k) = members h items ! k" "h1 ! a = h ! a"
          using deref ik a k by (simp_all add: members_def)
        show ?thesis
          using ah av ar m1 EntityCollectionError True upd[OF k] d
          by (auto simp: members_def split: if_splits)
      qed
    qed
  qed
qed

text \<open>
  Claim C8. The claim fails in the replacing branch of \<^verbatim>\<open>addOrReplace\<close>. The collection
  has the members at references 0 and 1 (users \<open>u1\<close> with Read, \<open>u2\<close> with Owner); the
  caller holds the entity at reference 2 (user \<open>u1\<close> with Owner). After
  \<^verbatim>\<open>addOrReplace\<close> the first member is the reference 2, the caller's own object, not a
  copy. When the caller then changes its object to be about \<open>u2\<close>, the first member
  changes with it, and two members are about one ARO.
\<close>

theorem addOrReplace_stores_callers_object:
  "addOrReplace_h example_schema 2 ([r1_u1_read, r1_u2_owner, r1_u1_owner_p9], [0, 1]) =
     (Inr (), ([r1_u1_read, r1_u2_owner, r1_u1_owner_p9, r1_u1_owner_p9], [2, 1])) \<and>
   members [r1_u1_read, r1_u2_owner, r1_u1_owner_p9, r1_u1_owner_p9] [2, 1] =
     [r1_u1_owner_p9, r1_u2_owner] \<and>
   members (mutate [r1_u1_read, r1_u2_owner, r1_u1_owner_p9, r1_u1_owner_p9] 2 r1_u2_read_p9)
     [2, 1] = [r1_u2_read_p9, r1_u2_owner] \<and>
   \<not> uniqueAroInv
     (members (mutate [r1_u1_read, r1_u2_owner, r1_u1_owner_p9, r1_u1_owner_p9] 2 r1_u2_read_p9)
        [2, 1])"
  by (simp add: heap_eval example_schema_def uniqueAroInv_def aroKey_def)

section \<open>The resource export controller\<close>

text \<open>
  With a controller module that exports \<^verbatim>\<open>open\<close> and \<^verbatim>\<open>close\<close>, the structure of
  \<^verbatim>\<open>exec\<close> does what is intended: nothing reaches the caller, a failure of the resource
  service is logged, and the run ends with the events of \<^verbatim>\<open>close\<close>.
\<close>

lemma exec_with_open_and_close:
  assumes "module ''open'' = Some opn" and "module ''close'' = Some cls"
  shows "fst (exec module remote w) = Inr () \<and>
     (\<exists>trace. snd (exec module remote w) = trace @ cls w) \<and>
     (\<forall>e. remote = Inl e \<longrightarrow> ConsoleError e \<in> set (snd (exec module remote w)))"
  using assms
  by (auto simp: exec_def exec_try_def call_export_def Let_def split: sum.splits)

lemma progressController_exports:
  "progressController name \<noteq> None \<longleftrightarrow>
     name \<in> {''start'', ''complete'', ''update'', ''updateGoals''}"
  by (simp add: progressController_def)

text \<open>
  Claim C10. The claim fails on the sources: \<^verbatim>\<open>exec\<close> calls \<^verbatim>\<open>progressController.open\<close>
  and \<^verbatim>\<open>progressController.close\<close>, which the progress controller does not export. In
  every run the call of \<^verbatim>\<open>open\<close> throws a TypeError, which is caught and logged, and the
  call of \<^verbatim>\<open>close\<close> in the \<^verbatim>\<open>finally\<close> block throws a TypeError that reaches the
  caller. The resource service is never called and no event reaches a progress dialog.
\<close>

theorem exec_throws_to_the_caller:
  "exec progressController remote w =
     (Inl (NotAFunction ''close''), [ConsoleError (NotAFunction ''open'')])"
  by (simp add: exec_def exec_try_def call_export_def progressController_def)

end
